theory Spec2Isabelle
  imports Main "HOL-Library.AList"
begin

section \<open>RecordStore: the per-table record cache of the blocks SDK\<close>

text \<open>
  A shallow embedding of \<^verbatim>\<open>packages/sdk/src/models/record_store.js\<close>.

  \<^item> A JavaScript object used as a dictionary is an association list in insertion order.
    Assigning to a key replaces the value in place when the key exists and appends the key
    otherwise (\<open>AList.update\<close>); \<open>Object.keys\<close> is \<open>map fst\<close>. Field and record ids
    are the opaque \<open>fld...\<close>/\<open>rec...\<close> strings of the SDK, never array-index strings, so
    insertion order is enumeration order.
  \<^item> \<open>undefined\<close> is \<open>None\<close> where a whole object may be missing and \<open>Undefined\<close> for a cell.
  \<^item> Every call of the backing store (\<open>_airtableInterface\<close>), of \<open>_onChange\<close>, of
    \<open>console.log\<close> and of a Record model is appended to the \<open>trace\<close> of the store, in
    program order. The table id is the same in every call and is left out of the events.
  \<^item> An \<open>async\<close> function is split where it awaits: the part run by the call, and the part
    run when the awaited promise settles. Promises live in a table indexed by their id;
    pending \<open>setTimeout\<close> closures live in a list of their captured variables.
  \<^item> The callbacks that \<open>_onChange\<close> and a Record model run belong to the watchers, not to
    the store; a call they make into the store is a later step of the run.
  \<^item> A method whose name starts with an underscore has the prefix \<open>priv_\<close> here.
  \<^item> The base class \<open>AbstractModelWithAsyncData\<close> is not part of the sources. Its
    \<open>isDataLoaded\<close> is a field of the store, its \<open>isDeleted\<close> is the absence of the
    table's data (\<open>_dataOrNullIfDeleted\<close> is null), and its \<open>_onChange\<close> is traced.
\<close>

subsection \<open>Data\<close>

type_synonym field_id = string
type_synonym record_id = string
type_synonym promise_id = nat

datatype cell_value = Undefined | CellValue string

datatype error =
    ModelDeleted
  | InvariantViolation string
  | BackendError string

record record_data =
  commentCount :: int
  createdTime :: string
  cellValuesByFieldId :: "(field_id \<times> cell_value) list option"

record table_data =
  fieldsById :: "field_id list"
  recordsById :: "(record_id \<times> record_data) list option"

record dirty_record_paths =
  isDirty :: bool
  dirtyCellValuesByFieldId :: "field_id list option"

record dirty_paths =
  dirtyRecordsById :: "(record_id \<times> dirty_record_paths) list option"

datatype change_payload =
    NoPayload
  | RecordsPayload "record_id list" "record_id list"
  | CellValuesPayload "record_id list" "field_id list"
  | CellValuesInFieldPayload "record_id list" field_id

datatype event =
    FetchAndSubscribeToCellValuesInFields "field_id list"
  | UnsubscribeFromCellValuesInFields "field_id list"
  | UnsubscribeFromTableData
  | OnChange string change_payload
  | ConsoleLog string
  | RecordTriggerOnChange record_id dirty_record_paths

text \<open>
  The promise returned by \<open>_loadCellValuesInFieldIdsAsync(fieldIds)\<close>, together with the
  \<open>then\<close> callback that \<open>loadCellValuesInFieldIdsAsync\<close> registers on it:
  \<open>Pending\<close> while the backend fetch is outstanding, \<open>Fulfilled\<close> once the function has
  returned its changed keys and the callback is queued, \<open>Done\<close> once the callback has run,
  \<open>Rejected\<close> when the fetch failed or the function threw (the callback never runs).
\<close>

datatype promise_state =
    Pending "field_id list"
  | Fulfilled "field_id list" "string list"
  | Done "string list"
  | Rejected error

datatype join_state = JoinPending | JoinFulfilled | JoinRejected

record record_store =
  tableData :: "table_data option"
  isDataLoaded :: bool
  recordModelsById :: "record_id list"
  areCellValuesLoadedByFieldId :: "(field_id \<times> bool) list"
  pendingCellValuesLoadPromiseByFieldId :: "(field_id \<times> promise_id option) list"
  cellValuesRetainCountByFieldId :: "(field_id \<times> int) list"
  promises :: "promise_state list"
  timers :: "field_id list list"
  trace :: "event list"

subsection \<open>Helpers of the source\<close>

definition WatchableCellValuesInFieldKeyPrefix :: string where
  "WatchableCellValuesInFieldKeyPrefix = ''cellValuesInField:''"

definition has :: "('k \<times> 'v) list \<Rightarrow> 'k \<Rightarrow> bool" where
  "has obj k = (map_of obj k \<noteq> None)"

definition cellValueOf :: "record_data \<Rightarrow> field_id \<Rightarrow> cell_value" where
  "cellValueOf r f =
     (case cellValuesByFieldId r of
        None \<Rightarrow> Undefined
      | Some cvs \<Rightarrow> (case map_of cvs f of None \<Rightarrow> Undefined | Some v \<Rightarrow> v))"

text \<open>
  Modelled from the spec: \<open>_onChange\<close> belongs to the base class, which is not part of the
  sources; it is the "fire by key" of the change-notification substrate. The model records
  the key and the payload.
\<close>

definition onChange :: "record_store \<Rightarrow> string \<Rightarrow> change_payload \<Rightarrow> record_store" where
  "onChange s key payload = s\<lparr>trace := trace s @ [OnChange key payload]\<rparr>"

text \<open>The truthiness tests \<open>this._areCellValuesLoadedByFieldId[fieldId]\<close> and
  \<open>this._pendingCellValuesLoadPromiseByFieldId[fieldId]\<close>.\<close>

definition loadedFlag :: "record_store \<Rightarrow> field_id \<Rightarrow> bool" where
  "loadedFlag s f = (map_of (areCellValuesLoadedByFieldId s) f = Some True)"

definition pendingPromise :: "record_store \<Rightarrow> field_id \<Rightarrow> promise_id option" where
  "pendingPromise s f =
     (case map_of (pendingCellValuesLoadPromiseByFieldId s) f of None \<Rightarrow> None | Some p \<Rightarrow> p)"

definition initialStore :: "table_data \<Rightarrow> record_store" where
  "initialStore td =
     \<lparr>tableData = Some td, isDataLoaded = False, recordModelsById = [],
      areCellValuesLoadedByFieldId = [], pendingCellValuesLoadPromiseByFieldId = [],
      cellValuesRetainCountByFieldId = [], promises = [], timers = [], trace = []\<rparr>"

subsection \<open>Accessors\<close>

text \<open>\<open>getRecordByIdIfExists\<close>: the Record model is identified with its record id.\<close>

definition getRecordByIdIfExists ::
  "record_store \<Rightarrow> record_id \<Rightarrow> error + (record_store \<times> record_id option)" where
  "getRecordByIdIfExists s recordId =
     (case tableData s of
        None \<Rightarrow> Inl ModelDeleted
      | Some td \<Rightarrow>
          (case recordsById td of
             None \<Rightarrow> Inl (InvariantViolation ''Record metadata is not loaded'')
           | Some recs \<Rightarrow>
               if \<not> has recs recordId then Inr (s, None)
               else if recordId \<in> set (recordModelsById s) then Inr (s, Some recordId)
               else Inr (s\<lparr>recordModelsById := recordModelsById s @ [recordId]\<rparr>,
                         Some recordId)))"

definition isRecordMetadataLoaded :: "record_store \<Rightarrow> error + bool" where
  "isRecordMetadataLoaded s =
     (case tableData s of
        None \<Rightarrow> Inl ModelDeleted
      | Some td \<Rightarrow> Inr (recordsById td \<noteq> None))"

definition areCellValuesLoadedForFieldId :: "record_store \<Rightarrow> field_id \<Rightarrow> bool" where
  "areCellValuesLoadedForFieldId s fieldId =
     (isDataLoaded s \<or> loadedFlag s fieldId \<or> False)"

subsection \<open>Loading\<close>

text \<open>The first loop of \<open>loadCellValuesInFieldIdsAsync\<close>: retain every field (a count
  that is not \<open>undefined\<close> is incremented, a missing one becomes 1), and sort the fields
  that are not loaded into those with a pending promise and the cold ones.\<close>

definition retainField :: "(field_id \<times> int) list \<Rightarrow> field_id \<Rightarrow> (field_id \<times> int) list" where
  "retainField counts fieldId =
     (case map_of counts fieldId of
        Some n \<Rightarrow> AList.update fieldId (n + 1) counts
      | None \<Rightarrow> AList.update fieldId 1 counts)"

fun loadLoop ::
  "record_store \<Rightarrow> field_id list \<Rightarrow> field_id list \<Rightarrow> promise_id list \<Rightarrow>
   record_store \<times> field_id list \<times> promise_id list" where
  "loadLoop s [] cold pend = (s, cold, pend)"
| "loadLoop s (fieldId # rest) cold pend =
     (let s1 = s\<lparr>cellValuesRetainCountByFieldId :=
                  retainField (cellValuesRetainCountByFieldId s) fieldId\<rparr>
      in if \<not> loadedFlag s1 fieldId then
           (case pendingPromise s1 fieldId of
              Some pendingLoadPromise \<Rightarrow> loadLoop s1 rest cold (pend @ [pendingLoadPromise])
            | None \<Rightarrow> loadLoop s1 rest (cold @ [fieldId]) pend)
         else loadLoop s1 rest cold pend)"

text \<open>The call of \<open>_loadCellValuesInFieldIdsAsync\<close>: it runs up to its \<open>await\<close>, that is, it
  issues the backend fetch, and returns a new pending promise.\<close>

definition priv_loadCellValuesInFieldIdsAsync_call ::
  "record_store \<Rightarrow> field_id list \<Rightarrow> record_store \<times> promise_id" where
  "priv_loadCellValuesInFieldIdsAsync_call s fieldIds =
     (s\<lparr>trace := trace s @ [FetchAndSubscribeToCellValuesInFields fieldIds],
        promises := promises s @ [Pending fieldIds]\<rparr>,
      length (promises s))"

text \<open>\<open>loadCellValuesInFieldIdsAsync\<close> up to its \<open>await\<close>; the result is the store and the
  list of promises handed to \<open>Promise.all\<close>.\<close>

definition loadCellValuesInFieldIdsAsync ::
  "record_store \<Rightarrow> field_id list \<Rightarrow> record_store \<times> promise_id list" where
  "loadCellValuesInFieldIdsAsync s fieldIds =
     (case loadLoop s fieldIds [] [] of
        (s1, cold, pend) \<Rightarrow>
          if length cold > 0 then
            (case priv_loadCellValuesInFieldIdsAsync_call s1 cold of
               (s2, p) \<Rightarrow>
                 (s2\<lparr>pendingCellValuesLoadPromiseByFieldId :=
                       fold (\<lambda>fieldId m. AList.update fieldId (Some p) m) cold
                         (pendingCellValuesLoadPromiseByFieldId s2)\<rparr>,
                  pend @ [p]))
          else (s1, pend))"

definition isRejected :: "promise_state \<Rightarrow> bool" where
  "isRejected st = (case st of Rejected e \<Rightarrow> True | _ \<Rightarrow> False)"

definition isPending :: "promise_state \<Rightarrow> bool" where
  "isPending st = (case st of Pending fs \<Rightarrow> True | _ \<Rightarrow> False)"

text \<open>\<open>Promise.all\<close> over promises of the table: rejected as soon as one of them is.\<close>

definition promiseAll :: "record_store \<Rightarrow> promise_id list \<Rightarrow> join_state" where
  "promiseAll s ps =
     (if list_ex (\<lambda>p. isRejected (promises s ! p)) ps then JoinRejected
      else if list_ex (\<lambda>p. isPending (promises s ! p)) ps then JoinPending
      else JoinFulfilled)"

text \<open>The merge of one incoming record into the resident one.\<close>

definition mergeRecord ::
  "field_id list \<Rightarrow> record_data \<Rightarrow> record_data \<Rightarrow> error + record_data" where
  "mergeRecord fieldIds existingRecordObj newRecordObj =
     (if commentCount existingRecordObj \<noteq> commentCount newRecordObj
      then Inl (InvariantViolation ''comment count out of sync'')
      else if createdTime existingRecordObj \<noteq> createdTime newRecordObj
      then Inl (InvariantViolation ''created time out of sync'')
      else Inr (existingRecordObj\<lparr>cellValuesByFieldId :=
                  Some (fold (\<lambda>fieldId cvs. AList.update fieldId (cellValueOf newRecordObj fieldId) cvs)
                          fieldIds
                          (case cellValuesByFieldId existingRecordObj of
                             None \<Rightarrow> [] | Some cvs \<Rightarrow> cvs))\<rparr>))"

text \<open>The loop over the entries of the snapshot. A failed invariant stops the loop and
  leaves the records merged so far in place, as the in-place mutation of the source does.\<close>

fun mergeRecords ::
  "field_id list \<Rightarrow> (record_id \<times> record_data) list \<Rightarrow> (record_id \<times> record_data) list \<Rightarrow>
   (record_id \<times> record_data) list \<times> error option" where
  "mergeRecords fieldIds [] existingRecordsById = (existingRecordsById, None)"
| "mergeRecords fieldIds ((recordId, newRecordObj) # rest) existingRecordsById =
     (case map_of existingRecordsById recordId of
        None \<Rightarrow>
          mergeRecords fieldIds rest (AList.update recordId newRecordObj existingRecordsById)
      | Some existingRecordObj \<Rightarrow>
          (case mergeRecord fieldIds existingRecordObj newRecordObj of
             Inl e \<Rightarrow> (existingRecordsById, Some e)
           | Inr merged \<Rightarrow>
               mergeRecords fieldIds rest (AList.update recordId merged existingRecordsById)))"

definition changedKeysFor :: "field_id list \<Rightarrow> string list" where
  "changedKeysFor fieldIds =
     map (\<lambda>fieldId. WatchableCellValuesInFieldKeyPrefix @ fieldId) fieldIds
       @ [''records'', ''recordIds'', ''cellValues'']"

text \<open>\<open>_loadCellValuesInFieldIdsAsync\<close> after its \<open>await\<close>, given the snapshot of the backend.
  Reading \<open>this._data.recordsById\<close> of a deleted table (\<open>_dataOrNullIfDeleted\<close> is null)
  throws: the getter \<open>_data\<close> of the base class is not part of the sources, and whether it
  throws itself or hands the null on, the property access fails. The snapshot is a value:
  the store shares no object with the backend.\<close>

definition priv_loadCellValuesInFieldIdsAsync_resume ::
  "record_store \<Rightarrow> field_id list \<Rightarrow> (record_id \<times> record_data) list \<Rightarrow>
   record_store \<times> (error + string list)" where
  "priv_loadCellValuesInFieldIdsAsync_resume s fieldIds newRecordsById =
     (case tableData s of
        None \<Rightarrow> (s, Inl ModelDeleted)
      | Some td \<Rightarrow>
          (case mergeRecords fieldIds newRecordsById
                  (case recordsById td of None \<Rightarrow> [] | Some recs \<Rightarrow> recs) of
             (merged, err) \<Rightarrow>
               (s\<lparr>tableData := Some (td\<lparr>recordsById := Some merged\<rparr>)\<rparr>,
                (case err of Some e \<Rightarrow> Inl e | None \<Rightarrow> Inr (changedKeysFor fieldIds)))))"

text \<open>The backend settles the fetch behind promise \<open>p\<close>.\<close>

definition fetchResolved ::
  "record_store \<Rightarrow> promise_id \<Rightarrow> (record_id \<times> record_data) list \<Rightarrow> record_store option" where
  "fetchResolved s p newRecordsById =
     (if p < length (promises s) then
        (case promises s ! p of
           Pending fieldIds \<Rightarrow>
             (case priv_loadCellValuesInFieldIdsAsync_resume s fieldIds newRecordsById of
                (s1, r) \<Rightarrow>
                  Some (s1\<lparr>promises := (promises s1)
                             [p := (case r of Inl e \<Rightarrow> Rejected e
                                    | Inr changedKeys \<Rightarrow> Fulfilled fieldIds changedKeys)]\<rparr>))
         | _ \<Rightarrow> None)
      else None)"

definition fetchRejected :: "record_store \<Rightarrow> promise_id \<Rightarrow> string \<Rightarrow> record_store option" where
  "fetchRejected s p msg =
     (if p < length (promises s) then
        (case promises s ! p of
           Pending fieldIds \<Rightarrow> Some (s\<lparr>promises := (promises s)[p := Rejected (BackendError msg)]\<rparr>)
         | _ \<Rightarrow> None)
      else None)"

text \<open>The callback given to \<open>then\<close> in \<open>loadCellValuesInFieldIdsAsync\<close>.\<close>

definition markLoaded :: "record_store \<Rightarrow> field_id list \<Rightarrow> record_store" where
  "markLoaded s fieldIds =
     fold (\<lambda>fieldId s'. s'\<lparr>areCellValuesLoadedByFieldId :=
                              AList.update fieldId True (areCellValuesLoadedByFieldId s'),
                            pendingCellValuesLoadPromiseByFieldId :=
                              AList.update fieldId None (pendingCellValuesLoadPromiseByFieldId s')\<rparr>)
       fieldIds s"

definition thenCallback :: "record_store \<Rightarrow> promise_id \<Rightarrow> record_store option" where
  "thenCallback s p =
     (if p < length (promises s) then
        (case promises s ! p of
           Fulfilled fieldIds changedKeys \<Rightarrow>
             Some (fold (\<lambda>key s'. onChange s' key NoPayload) changedKeys
                     (markLoaded (s\<lparr>promises := (promises s)[p := Done changedKeys]\<rparr>) fieldIds))
         | _ \<Rightarrow> None)
      else None)"

subsection \<open>Unloading\<close>

definition clearCellValues :: "field_id list \<Rightarrow> record_data \<Rightarrow> record_data" where
  "clearCellValues fieldIdsToClear recordObj =
     (case cellValuesByFieldId recordObj of
        None \<Rightarrow> recordObj
      | Some cvs \<Rightarrow>
          recordObj\<lparr>cellValuesByFieldId :=
            Some (fold (\<lambda>fieldId m. AList.update fieldId Undefined m) fieldIdsToClear cvs)\<rparr>)"

definition areAnyFieldsLoaded :: "record_store \<Rightarrow> bool" where
  "areAnyFieldsLoaded s =
     (isDataLoaded s \<or> list_ex (\<lambda>isLoaded. isLoaded) (map snd (areCellValuesLoadedByFieldId s)))"

definition priv_afterUnloadDataOrUnloadCellValuesInFieldIds ::
  "record_store \<Rightarrow> field_id list option \<Rightarrow> record_store" where
  "priv_afterUnloadDataOrUnloadCellValuesInFieldIds s unloadedFieldIds =
     (let s1 =
        (case tableData s of
           None \<Rightarrow> s
         | Some td \<Rightarrow>
             if \<not> areAnyFieldsLoaded s then
               s\<lparr>tableData := Some (td\<lparr>recordsById := None\<rparr>)\<rparr>
             else if \<not> isDataLoaded s then
               (let fieldIdsToClear =
                      (case unloadedFieldIds of
                         Some fs \<Rightarrow> fs
                       | None \<Rightarrow> filter (\<lambda>fieldId. \<not> loadedFlag s fieldId) (fieldsById td))
                in s\<lparr>tableData := Some (td\<lparr>recordsById :=
                       map_option (map (\<lambda>(recordId, recordObj).
                                          (recordId, clearCellValues fieldIdsToClear recordObj)))
                         (recordsById td)\<rparr>)\<rparr>)
             else s)
      in if \<not> areAnyFieldsLoaded s then s1\<lparr>recordModelsById := []\<rparr> else s1)"

definition priv_unloadCellValuesInFieldIds :: "record_store \<Rightarrow> field_id list \<Rightarrow> record_store" where
  "priv_unloadCellValuesInFieldIds s fieldIds =
     priv_afterUnloadDataOrUnloadCellValuesInFieldIds
       (s\<lparr>trace := trace s @ [UnsubscribeFromCellValuesInFields fieldIds]\<rparr>) (Some fieldIds)"

definition priv_unloadData :: "record_store \<Rightarrow> record_store" where
  "priv_unloadData s =
     priv_afterUnloadDataOrUnloadCellValuesInFieldIds
       (s\<lparr>trace := trace s @ [UnsubscribeFromTableData]\<rparr>) None"

text \<open>The loop of \<open>unloadCellValuesInFieldIds\<close>; \<open>count || 0\<close> reads a missing count as 0.\<close>

fun unloadLoop ::
  "record_store \<Rightarrow> field_id list \<Rightarrow> field_id list \<Rightarrow> record_store \<times> field_id list" where
  "unloadLoop s [] zero = (s, zero)"
| "unloadLoop s (fieldId # rest) zero =
     (let fieldRetainCount =
            (case map_of (cellValuesRetainCountByFieldId s) fieldId of
               None \<Rightarrow> 0 | Some n \<Rightarrow> n) - 1;
          s1 = (if fieldRetainCount < 0
                then s\<lparr>trace := trace s @ [ConsoleLog ''Field data over-released'']\<rparr> else s);
          clamped = (if fieldRetainCount < 0 then 0 else fieldRetainCount);
          s2 = s1\<lparr>cellValuesRetainCountByFieldId :=
                    AList.update fieldId clamped (cellValuesRetainCountByFieldId s1)\<rparr>
      in unloadLoop s2 rest (if clamped = 0 then zero @ [fieldId] else zero))"

definition unloadCellValuesInFieldIds :: "record_store \<Rightarrow> field_id list \<Rightarrow> record_store" where
  "unloadCellValuesInFieldIds s fieldIds =
     (case unloadLoop s fieldIds [] of
        (s1, fieldIdsWithZeroRetainCount) \<Rightarrow>
          if length fieldIdsWithZeroRetainCount > 0
          then s1\<lparr>timers := timers s1 @ [fieldIdsWithZeroRetainCount]\<rparr>
          else s1)"

text \<open>The closure given to \<open>setTimeout\<close>, run at the end of the debounce delay with the
  list it captured.\<close>

definition unloadTimeout :: "record_store \<Rightarrow> field_id list \<Rightarrow> record_store" where
  "unloadTimeout s fieldIdsWithZeroRetainCount =
     (let fieldIdsToUnload =
            filter (\<lambda>fieldId. map_of (cellValuesRetainCountByFieldId s) fieldId = Some 0)
              fieldIdsWithZeroRetainCount
      in if length fieldIdsToUnload > 0 then
           priv_unloadCellValuesInFieldIds
             (s\<lparr>areCellValuesLoadedByFieldId :=
                  fold (\<lambda>fieldId m. AList.update fieldId False m) fieldIdsToUnload
                    (areCellValuesLoadedByFieldId s)\<rparr>)
             fieldIdsToUnload
         else s)"

definition timerFires :: "record_store \<Rightarrow> nat \<Rightarrow> record_store option" where
  "timerFires s i =
     (if i < length (timers s)
      then Some (unloadTimeout (s\<lparr>timers := take i (timers s) @ drop (Suc i) (timers s)\<rparr>)
                   (timers s ! i))
      else None)"

subsection \<open>Dirty paths\<close>

text \<open>The loop of \<open>triggerOnChangeForDirtyPaths\<close> over the entries of
  \<open>dirtyPaths.recordsById\<close>. \<open>dirtyFieldIdsSet\<close> is the object used as a set.\<close>

fun dirtyLoop ::
  "record_store \<Rightarrow> (record_id \<times> dirty_record_paths) list \<Rightarrow> (field_id \<times> bool) list \<Rightarrow>
   record_id list \<Rightarrow> record_id list \<Rightarrow>
   error + (record_store \<times> (field_id \<times> bool) list \<times> record_id list \<times> record_id list)" where
  "dirtyLoop s [] dirtyFieldIdsSet addedRecordIds removedRecordIds =
     Inr (s, dirtyFieldIdsSet, addedRecordIds, removedRecordIds)"
| "dirtyLoop s ((recordId, dirtyRecordPaths) # rest) dirtyFieldIdsSet addedRecordIds
     removedRecordIds =
     (let dirtyFieldIdsSet1 =
            (case dirtyCellValuesByFieldId dirtyRecordPaths of
               None \<Rightarrow> dirtyFieldIdsSet
             | Some fieldIds \<Rightarrow>
                 fold (\<lambda>fieldId m. AList.update fieldId True m) fieldIds dirtyFieldIdsSet)
      in if isDirty dirtyRecordPaths then
           (case tableData s of
              None \<Rightarrow> Inl ModelDeleted
            | Some td \<Rightarrow>
                (case recordsById td of
                   None \<Rightarrow> Inl (InvariantViolation ''No recordsById'')
                 | Some recs \<Rightarrow>
                     if has recs recordId then
                       dirtyLoop s rest dirtyFieldIdsSet1 (addedRecordIds @ [recordId])
                         removedRecordIds
                     else
                       dirtyLoop
                         (s\<lparr>recordModelsById := removeAll recordId (recordModelsById s)\<rparr>)
                         rest dirtyFieldIdsSet1 addedRecordIds (removedRecordIds @ [recordId])))
         else
           dirtyLoop
             (if recordId \<in> set (recordModelsById s)
              then s\<lparr>trace := trace s @ [RecordTriggerOnChange recordId dirtyRecordPaths]\<rparr>
              else s)
             rest dirtyFieldIdsSet1 addedRecordIds removedRecordIds)"

definition triggerOnChangeForDirtyPaths ::
  "record_store \<Rightarrow> dirty_paths \<Rightarrow> error + record_store" where
  "triggerOnChangeForDirtyPaths s dirtyPaths =
     (case isRecordMetadataLoaded s of
        Inl e \<Rightarrow> Inl e
      | Inr metadataLoaded \<Rightarrow>
          (case dirtyRecordsById dirtyPaths of
             None \<Rightarrow> Inr s
           | Some dirtyRecs \<Rightarrow>
               if \<not> metadataLoaded then Inr s
               else
                 (case dirtyLoop s dirtyRecs [] [] [] of
                    Inl e \<Rightarrow> Inl e
                  | Inr (s1, dirtyFieldIdsSet, addedRecordIds, removedRecordIds) \<Rightarrow>
                      (let s2 =
                             (if length addedRecordIds > 0 \<or> length removedRecordIds > 0
                              then onChange
                                     (onChange s1 ''records''
                                        (RecordsPayload addedRecordIds removedRecordIds))
                                     ''recordIds''
                                     (RecordsPayload addedRecordIds removedRecordIds)
                              else s1);
                           fieldIds = map fst dirtyFieldIdsSet;
                           recordIds = map fst dirtyRecs;
                           s3 =
                             (if length fieldIds > 0 \<and> length recordIds > 0
                              then onChange s2 ''cellValues''
                                     (CellValuesPayload recordIds fieldIds)
                              else s2)
                       in Inr (fold (\<lambda>fieldId s'.
                                       onChange s'
                                         (WatchableCellValuesInFieldKeyPrefix @ fieldId)
                                         (CellValuesInFieldPayload recordIds fieldId))
                                 fieldIds s3)))))"

subsection \<open>Runs of the store\<close>

text \<open>
  The states a store can be in: the store a constructor makes, followed by any
  interleaving of calls of its methods, settlements of its promises, expiries of its
  timers, and changes made from outside to the table's data and to the base class's
  \<open>isDataLoaded\<close>.
\<close>

inductive reachable :: "record_store \<Rightarrow> bool" where
  reach_init: "reachable (initialStore td)"
| reach_load: "reachable s \<Longrightarrow> reachable (fst (loadCellValuesInFieldIdsAsync s fieldIds))"
| reach_resolved: "reachable s \<Longrightarrow> fetchResolved s p newRecordsById = Some s' \<Longrightarrow> reachable s'"
| reach_rejected: "reachable s \<Longrightarrow> fetchRejected s p msg = Some s' \<Longrightarrow> reachable s'"
| reach_then: "reachable s \<Longrightarrow> thenCallback s p = Some s' \<Longrightarrow> reachable s'"
| reach_unload: "reachable s \<Longrightarrow> reachable (unloadCellValuesInFieldIds s fieldIds)"
| reach_timer: "reachable s \<Longrightarrow> timerFires s i = Some s' \<Longrightarrow> reachable s'"
| reach_unloadData: "reachable s \<Longrightarrow> reachable (priv_unloadData s)"
| reach_dirty: "reachable s \<Longrightarrow> triggerOnChangeForDirtyPaths s dirtyPaths = Inr s' \<Longrightarrow> reachable s'"
| reach_getRecord: "reachable s \<Longrightarrow> getRecordByIdIfExists s recordId = Inr (s', r) \<Longrightarrow> reachable s'"
| reach_env: "reachable s \<Longrightarrow> reachable (s\<lparr>tableData := td', isDataLoaded := b\<rparr>)"

text \<open>The fields of a promise whose \<open>then\<close> callback may still run.\<close>

definition batchOf :: "promise_state \<Rightarrow> field_id list" where
  "batchOf st = (case st of Pending fs \<Rightarrow> fs | Fulfilled fs ks \<Rightarrow> fs | _ \<Rightarrow> [])"

text \<open>The promises whose backend fetch is outstanding and asked for field \<open>f\<close>.\<close>

definition outstandingFetches :: "record_store \<Rightarrow> field_id \<Rightarrow> promise_id list" where
  "outstandingFetches s f =
     filter (\<lambda>p. case promises s ! p of Pending fs \<Rightarrow> f \<in> set fs | _ \<Rightarrow> False)
       [0..<length (promises s)]"

text \<open>The fields of a request that are neither loaded nor loading, and the pending promises
  of those that are loading.\<close>

definition coldFields :: "record_store \<Rightarrow> field_id list \<Rightarrow> field_id list" where
  "coldFields s fieldIds =
     filter (\<lambda>f. \<not> loadedFlag s f \<and> pendingPromise s f = None) fieldIds"

definition joinedPending :: "record_store \<Rightarrow> field_id list \<Rightarrow> promise_id list" where
  "joinedPending s fieldIds =
     concat (map (\<lambda>f. if loadedFlag s f then []
                       else (case pendingPromise s f of None \<Rightarrow> [] | Some p \<Rightarrow> [p])) fieldIds)"

definition storeInv :: "record_store \<Rightarrow> bool" where
  "storeInv s \<longleftrightarrow>
     (\<forall>p < length (promises s). \<forall>f \<in> set (batchOf (promises s ! p)). pendingPromise s f = Some p) \<and>
     (\<forall>f p. pendingPromise s f = Some p \<longrightarrow> p < length (promises s) \<and> \<not> loadedFlag s f)"

subsection \<open>Notions of the statements\<close>

text \<open>The test of the two invariants of the merge, negated: the resident and the incoming
  record disagree on the comment count or on the created time.\<close>

definition mismatch :: "record_data \<Rightarrow> record_data \<Rightarrow> bool" where
  "mismatch existingRecordObj newRecordObj \<longleftrightarrow>
     commentCount existingRecordObj \<noteq> commentCount newRecordObj \<or>
     createdTime existingRecordObj \<noteq> createdTime newRecordObj"

text \<open>Some record of the snapshot is resident and disagrees with the resident record.\<close>

definition outOfSync ::
  "(record_id \<times> record_data) list \<Rightarrow> (record_id \<times> record_data) list \<Rightarrow> bool" where
  "outOfSync existingRecordsById newRecordsById =
     list_ex (\<lambda>(recordId, newRecordObj).
                case map_of existingRecordsById recordId of
                  None \<Rightarrow> False
                | Some existingRecordObj \<Rightarrow> mismatch existingRecordObj newRecordObj)
       newRecordsById"

text \<open>The record map the merge starts from: \<open>{}\<close> when \<open>recordsById\<close> is missing.\<close>

definition residentRecords :: "table_data \<Rightarrow> (record_id \<times> record_data) list" where
  "residentRecords td = (case recordsById td of None \<Rightarrow> [] | Some recs \<Rightarrow> recs)"

text \<open>The captured fields whose retain count is exactly 0 when the timer fires.\<close>

definition fieldIdsToUnload :: "record_store \<Rightarrow> field_id list \<Rightarrow> field_id list" where
  "fieldIdsToUnload s fieldIdsWithZeroRetainCount =
     filter (\<lambda>fieldId. map_of (cellValuesRetainCountByFieldId s) fieldId = Some 0)
       fieldIdsWithZeroRetainCount"

text \<open>The column of one field: its cell value in every record, in the order of the
  record map.\<close>

definition cellValuesInField ::
  "table_data \<Rightarrow> field_id \<Rightarrow> (record_id \<times> cell_value) list option" where
  "cellValuesInField td f =
     map_option (map (\<lambda>(recordId, recordObj). (recordId, cellValueOf recordObj f)))
       (recordsById td)"


subsection \<open>Example stores\<close>

text \<open>Concrete tables, stores, snapshots and diffs on which the statements are run.
  Fields are \<open>fldA\<close> and \<open>fldB\<close>, records \<open>recA\<close> and \<open>recB\<close>.\<close>

definition c1_table :: table_data where
  "c1_table = \<lparr>fieldsById = [''fldA'', ''fldB''], recordsById = None\<rparr>"

definition c1_store :: record_store where
  "c1_store = fst (loadCellValuesInFieldIdsAsync (initialStore c1_table) [''fldA''])"

definition c2_table :: table_data where
  "c2_table = \<lparr>fieldsById = [''fldA''], recordsById = None\<rparr>"

definition c2_store :: record_store where
  "c2_store = fst (loadCellValuesInFieldIdsAsync (initialStore c2_table) [''fldA''])"

definition c2_failed :: record_store where
  "c2_failed =
     \<lparr>tableData = Some c2_table, isDataLoaded = False, recordModelsById = [],
      areCellValuesLoadedByFieldId = [],
      pendingCellValuesLoadPromiseByFieldId = [(''fldA'', Some 0)],
      cellValuesRetainCountByFieldId = [(''fldA'', 1)],
      promises = [Rejected (BackendError ''offline'')], timers = [],
      trace = [FetchAndSubscribeToCellValuesInFields [''fldA'']]\<rparr>"

definition c3_table :: table_data where
  "c3_table = \<lparr>fieldsById = [''fldA''], recordsById = None\<rparr>"

definition c3_store :: record_store where
  "c3_store =
     \<lparr>tableData = Some c3_table, isDataLoaded = False, recordModelsById = [],
      areCellValuesLoadedByFieldId = [(''fldA'', False)],
      pendingCellValuesLoadPromiseByFieldId = [(''fldA'', None)],
      cellValuesRetainCountByFieldId = [(''fldA'', 0)],
      promises = [Done [''cellValuesInField:fldA'', ''records'', ''recordIds'', ''cellValues'']],
      timers = [],
      trace = [FetchAndSubscribeToCellValuesInFields [''fldA''],
               OnChange ''cellValuesInField:fldA'' NoPayload, OnChange ''records'' NoPayload,
               OnChange ''recordIds'' NoPayload, OnChange ''cellValues'' NoPayload,
               UnsubscribeFromCellValuesInFields [''fldA'']]\<rparr>"

definition c3_released :: record_store where
  "c3_released =
     c3_store\<lparr>timers := [[''fldA'']],
              trace := trace c3_store @ [ConsoleLog ''Field data over-released'']\<rparr>"

definition c3_fired :: record_store where
  "c3_fired =
     c3_store\<lparr>trace := trace c3_store @
                [ConsoleLog ''Field data over-released'',
                 UnsubscribeFromCellValuesInFields [''fldA'']]\<rparr>"

definition c3_recA :: record_data where
  "c3_recA = \<lparr>commentCount = 0, createdTime = ''2020-01-01'',
              cellValuesByFieldId = Some [(''fldA'', CellValue ''a1'')]\<rparr>"

definition c3_loading :: record_store where
  "c3_loading =
     \<lparr>tableData = Some c3_table, isDataLoaded = False, recordModelsById = [],
      areCellValuesLoadedByFieldId = [(''fldA'', False)],
      pendingCellValuesLoadPromiseByFieldId = [(''fldA'', Some 0)],
      cellValuesRetainCountByFieldId = [(''fldA'', 0)],
      promises = [Pending [''fldA'']], timers = [],
      trace = [FetchAndSubscribeToCellValuesInFields [''fldA''],
               UnsubscribeFromCellValuesInFields [''fldA'']]\<rparr>"

definition c3_loading_released :: record_store where
  "c3_loading_released =
     c3_loading\<lparr>timers := [[''fldA'']],
                trace := trace c3_loading @ [ConsoleLog ''Field data over-released'']\<rparr>"

definition c3_resolved :: record_store where
  "c3_resolved =
     c3_loading_released
       \<lparr>tableData := Some (c3_table\<lparr>recordsById := Some [(''recA'', c3_recA)]\<rparr>),
        promises := [Fulfilled [''fldA'']
                       [''cellValuesInField:fldA'', ''records'', ''recordIds'', ''cellValues'']]\<rparr>"

definition c3_late :: record_store where
  "c3_late =
     c3_resolved
       \<lparr>areCellValuesLoadedByFieldId := [(''fldA'', True)],
        pendingCellValuesLoadPromiseByFieldId := [(''fldA'', None)],
        promises := [Done [''cellValuesInField:fldA'', ''records'', ''recordIds'', ''cellValues'']],
        trace := trace c3_resolved @
          [OnChange ''cellValuesInField:fldA'' NoPayload, OnChange ''records'' NoPayload,
           OnChange ''recordIds'' NoPayload, OnChange ''cellValues'' NoPayload]\<rparr>"

definition c3_late_fired :: record_store where
  "c3_late_fired =
     c3_late\<lparr>tableData := Some c3_table, areCellValuesLoadedByFieldId := [(''fldA'', False)],
             timers := [],
             trace := trace c3_late @ [UnsubscribeFromCellValuesInFields [''fldA'']]\<rparr>"



definition c5_recA :: record_data where
  "c5_recA = \<lparr>commentCount = 2, createdTime = ''2020-01-01'',
              cellValuesByFieldId = Some [(''fldA'', CellValue ''a1''), (''fldB'', CellValue ''stale'')]\<rparr>"

definition c5_table :: table_data where
  "c5_table = \<lparr>fieldsById = [''fldA'', ''fldB''], recordsById = Some [(''recA'', c5_recA)]\<rparr>"

definition c5_store :: record_store where
  "c5_store =
     \<lparr>tableData = Some c5_table, isDataLoaded = False, recordModelsById = [],
      areCellValuesLoadedByFieldId = [(''fldA'', True)],
      pendingCellValuesLoadPromiseByFieldId = [(''fldA'', None), (''fldB'', Some 1)],
      cellValuesRetainCountByFieldId = [(''fldA'', 1), (''fldB'', 1)],
      promises = [Done [''cellValuesInField:fldA'', ''records'', ''recordIds'', ''cellValues''],
                  Pending [''fldB'']],
      timers = [], trace = []\<rparr>"

definition c5_newA :: record_data where
  "c5_newA = \<lparr>commentCount = 2, createdTime = ''2020-01-01'',
              cellValuesByFieldId = Some [(''fldB'', CellValue ''b1'')]\<rparr>"

definition c5_newB :: record_data where
  "c5_newB = \<lparr>commentCount = 0, createdTime = ''2020-02-02'',
              cellValuesByFieldId = Some [(''fldB'', CellValue ''b2'')]\<rparr>"

definition c6_newA :: record_data where
  "c6_newA = \<lparr>commentCount = 3, createdTime = ''2020-01-01'',
              cellValuesByFieldId = Some [(''fldB'', CellValue ''b1'')]\<rparr>"

definition c7_store :: record_store where
  "c7_store =
     \<lparr>tableData = Some \<lparr>fieldsById = [''fldA'', ''fldB''],
         recordsById = Some [(''recA'',
           \<lparr>commentCount = 0, createdTime = ''2020-01-01'',
            cellValuesByFieldId = Some [(''fldA'', CellValue ''a1''), (''fldB'', CellValue ''b1'')]\<rparr>)]\<rparr>,
      isDataLoaded = False, recordModelsById = [],
      areCellValuesLoadedByFieldId = [(''fldA'', True), (''fldB'', True)],
      pendingCellValuesLoadPromiseByFieldId = [(''fldA'', None), (''fldB'', None)],
      cellValuesRetainCountByFieldId = [(''fldA'', 1), (''fldB'', 0)],
      promises = [Done [''cellValuesInField:fldA'', ''cellValuesInField:fldB'', ''records'',
                        ''recordIds'', ''cellValues'']],
      timers = [], trace = []\<rparr>"

definition c8_store :: record_store where
  "c8_store =
     \<lparr>tableData = Some \<lparr>fieldsById = [''fldA'', ''fldB''],
         recordsById = Some [(''recA'',
           \<lparr>commentCount = 0, createdTime = ''2020-01-01'',
            cellValuesByFieldId = Some [(''fldA'', CellValue ''x'')]\<rparr>)]\<rparr>,
      isDataLoaded = False, recordModelsById = [''recA''],
      areCellValuesLoadedByFieldId = [(''fldA'', False)],
      pendingCellValuesLoadPromiseByFieldId = [(''fldA'', None)],
      cellValuesRetainCountByFieldId = [(''fldA'', 0)],
      promises = [Done [''cellValuesInField:fldA'', ''records'', ''recordIds'', ''cellValues'']],
      timers = [], trace = []\<rparr>"

definition c9_store :: record_store where
  "c9_store =
     \<lparr>tableData = Some \<lparr>fieldsById = [''fldA''], recordsById = Some []\<rparr>,
      isDataLoaded = True, recordModelsById = [],
      areCellValuesLoadedByFieldId = [], pendingCellValuesLoadPromiseByFieldId = [],
      cellValuesRetainCountByFieldId = [], promises = [], timers = [], trace = []\<rparr>"

definition c10_store :: record_store where
  "c10_store =
     \<lparr>tableData = Some \<lparr>fieldsById = [''fldA''], recordsById = Some []\<rparr>,
      isDataLoaded = False, recordModelsById = [],
      areCellValuesLoadedByFieldId = [],
      pendingCellValuesLoadPromiseByFieldId = [(''fldA'', Some 0)],
      cellValuesRetainCountByFieldId = [(''fldA'', 1)],
      promises = [Pending [''fldA'']], timers = [],
      trace = [FetchAndSubscribeToCellValuesInFields [''fldA'']]\<rparr>"

definition c10_resolved :: record_store where
  "c10_resolved =
     c10_store\<lparr>promises :=
       [Fulfilled [''fldA''] [''cellValuesInField:fldA'', ''records'', ''recordIds'', ''cellValues'']]\<rparr>"


section \<open>Properties\<close>

subsection \<open>Facts about the operations\<close>

lemma map_of_fold_update:
  "map_of (fold (\<lambda>k m. AList.update k (g k) m) ks m0) x = (if x \<in> set ks then Some (g x) else map_of m0 x)"
  by (induction ks arbitrary: m0) (auto simp: update_conv')

lemma coldFields_cong:
  "loadedFlag s' = loadedFlag s \<Longrightarrow> pendingPromise s' = pendingPromise s \<Longrightarrow>
   coldFields s' fs = coldFields s fs"
  by (simp add: coldFields_def)

lemma joinedPending_cong:
  "loadedFlag s' = loadedFlag s \<Longrightarrow> pendingPromise s' = pendingPromise s \<Longrightarrow>
   joinedPending s' fs = joinedPending s fs"
  by (simp add: joinedPending_def cong: if_cong)

lemma coldFields_Cons:
  "coldFields s (f # fs) =
     (if \<not> loadedFlag s f \<and> pendingPromise s f = None then f # coldFields s fs else coldFields s fs)"
  by (simp add: coldFields_def)

lemma joinedPending_Cons:
  "joinedPending s (f # fs) =
     (if loadedFlag s f then [] else (case pendingPromise s f of None \<Rightarrow> [] | Some p \<Rightarrow> [p]))
       @ joinedPending s fs"
  by (simp add: joinedPending_def)

lemma loadLoop_step:
  "loadLoop s (f # fs) cold pend =
     (if \<not> loadedFlag s f then
         (case pendingPromise s f of
            Some p \<Rightarrow> loadLoop (s\<lparr>cellValuesRetainCountByFieldId := retainField (cellValuesRetainCountByFieldId s) f\<rparr>) fs cold (pend @ [p])
          | None \<Rightarrow> loadLoop (s\<lparr>cellValuesRetainCountByFieldId := retainField (cellValuesRetainCountByFieldId s) f\<rparr>) fs (cold @ [f]) pend)
       else loadLoop (s\<lparr>cellValuesRetainCountByFieldId := retainField (cellValuesRetainCountByFieldId s) f\<rparr>) fs cold pend)"
  by (simp add: Let_def loadedFlag_def pendingPromise_def)

lemma loadLoop_eq:
  "\<exists>c. loadLoop s fs cold pend =
     (s\<lparr>cellValuesRetainCountByFieldId := c\<rparr>, cold @ coldFields s fs, pend @ joinedPending s fs)"
proof (induction fs arbitrary: s cold pend)
  case Nil
  have "loadLoop s [] cold pend =
      (s\<lparr>cellValuesRetainCountByFieldId := cellValuesRetainCountByFieldId s\<rparr>,
       cold @ coldFields s [], pend @ joinedPending s [])"
    by (simp add: coldFields_def joinedPending_def)
  then show ?case by blast
next
  case (Cons f fs)
  define s1 where "s1 = s\<lparr>cellValuesRetainCountByFieldId := retainField (cellValuesRetainCountByFieldId s) f\<rparr>"
  have lf: "loadedFlag s1 = loadedFlag s" and pp: "pendingPromise s1 = pendingPromise s"
    by (simp_all add: s1_def loadedFlag_def pendingPromise_def fun_eq_iff)
  have cf: "coldFields s1 fs = coldFields s fs" and jp: "joinedPending s1 fs = joinedPending s fs"
    using lf pp by (rule coldFields_cong, rule joinedPending_cong)
  have upd: "\<And>c. s1\<lparr>cellValuesRetainCountByFieldId := c\<rparr> = s\<lparr>cellValuesRetainCountByFieldId := c\<rparr>"
    by (simp add: s1_def)
  have IH: "\<exists>c. loadLoop s1 fs cold' pend' =
     (s\<lparr>cellValuesRetainCountByFieldId := c\<rparr>, cold' @ coldFields s fs, pend' @ joinedPending s fs)"
    for cold' pend'
    using Cons[of s1 cold' pend'] by (simp only: upd cf jp)
  show ?case
  proof (cases "loadedFlag s f")
    case True
    have "loadLoop s (f # fs) cold pend = loadLoop s1 fs cold pend"
      using True by (simp only: loadLoop_step s1_def) simp
    moreover have "coldFields s (f # fs) = coldFields s fs" "joinedPending s (f # fs) = joinedPending s fs"
      using True by (simp_all add: coldFields_Cons joinedPending_Cons)
    ultimately show ?thesis using IH[of cold pend] by (simp only:)
  next
    case False
    show ?thesis
    proof (cases "pendingPromise s f")
      case None
      have "loadLoop s (f # fs) cold pend = loadLoop s1 fs (cold @ [f]) pend"
        using False None by (simp only: loadLoop_step s1_def) simp
      moreover have "cold @ coldFields s (f # fs) = (cold @ [f]) @ coldFields s fs"
        "joinedPending s (f # fs) = joinedPending s fs"
        using False None by (simp_all add: coldFields_Cons joinedPending_Cons)
      ultimately show ?thesis using IH[of "cold @ [f]" pend] by (simp only:)
    next
      case (Some p)
      have "loadLoop s (f # fs) cold pend = loadLoop s1 fs cold (pend @ [p])"
        using False Some by (simp only: loadLoop_step s1_def) simp
      moreover have "coldFields s (f # fs) = coldFields s fs"
        "pend @ joinedPending s (f # fs) = (pend @ [p]) @ joinedPending s fs"
        using False Some by (simp_all add: coldFields_Cons joinedPending_Cons)
      ultimately show ?thesis using IH[of cold "pend @ [p]"] by (simp only:)
    qed
  qed
qed

lemma load_eq:
  "\<exists>c. loadCellValuesInFieldIdsAsync s fs =
     (if coldFields s fs = [] then (s\<lparr>cellValuesRetainCountByFieldId := c\<rparr>, joinedPending s fs)
      else (s\<lparr>cellValuesRetainCountByFieldId := c,
              trace := trace s @ [FetchAndSubscribeToCellValuesInFields (coldFields s fs)],
              promises := promises s @ [Pending (coldFields s fs)],
              pendingCellValuesLoadPromiseByFieldId :=
                fold (\<lambda>f m. AList.update f (Some (length (promises s))) m) (coldFields s fs)
                  (pendingCellValuesLoadPromiseByFieldId s)\<rparr>,
            joinedPending s fs @ [length (promises s)]))"
proof -
  from loadLoop_eq[of s fs "[]" "[]"] obtain c where
    c: "loadLoop s fs [] [] = (s\<lparr>cellValuesRetainCountByFieldId := c\<rparr>, coldFields s fs, joinedPending s fs)"
    by auto
  show ?thesis
    by (rule exI[of _ c])
       (simp add: loadCellValuesInFieldIdsAsync_def c priv_loadCellValuesInFieldIdsAsync_call_def)
qed

lemma load_facts:
  assumes "loadCellValuesInFieldIdsAsync s fs = (s', joined)"
  shows "trace s' = trace s @ (if coldFields s fs = [] then []
                              else [FetchAndSubscribeToCellValuesInFields (coldFields s fs)])"
    and "promises s' = promises s @ (if coldFields s fs = [] then [] else [Pending (coldFields s fs)])"
    and "areCellValuesLoadedByFieldId s' = areCellValuesLoadedByFieldId s"
    and "pendingPromise s' f =
           (if f \<in> set (coldFields s fs) then Some (length (promises s)) else pendingPromise s f)"
    and "joined = joinedPending s fs @ (if coldFields s fs = [] then [] else [length (promises s)])"
    and "tableData s' = tableData s" and "isDataLoaded s' = isDataLoaded s"
    and "recordModelsById s' = recordModelsById s" and "timers s' = timers s"
proof -
  from load_eq[of s fs] obtain c where
    c: "loadCellValuesInFieldIdsAsync s fs =
     (if coldFields s fs = [] then (s\<lparr>cellValuesRetainCountByFieldId := c\<rparr>, joinedPending s fs)
      else (s\<lparr>cellValuesRetainCountByFieldId := c,
              trace := trace s @ [FetchAndSubscribeToCellValuesInFields (coldFields s fs)],
              promises := promises s @ [Pending (coldFields s fs)],
              pendingCellValuesLoadPromiseByFieldId :=
                fold (\<lambda>f m. AList.update f (Some (length (promises s))) m) (coldFields s fs)
                  (pendingCellValuesLoadPromiseByFieldId s)\<rparr>,
            joinedPending s fs @ [length (promises s)]))"
    by blast
  show "trace s' = trace s @ (if coldFields s fs = [] then []
                              else [FetchAndSubscribeToCellValuesInFields (coldFields s fs)])"
    using assms c by (auto split: if_splits)
  show "promises s' = promises s @ (if coldFields s fs = [] then [] else [Pending (coldFields s fs)])"
    using assms c by (auto split: if_splits)
  show "areCellValuesLoadedByFieldId s' = areCellValuesLoadedByFieldId s"
    using assms c by (auto split: if_splits)
  show "pendingPromise s' f =
           (if f \<in> set (coldFields s fs) then Some (length (promises s)) else pendingPromise s f)"
    using assms c by (auto simp: pendingPromise_def map_of_fold_update split: if_splits)
  show "joined = joinedPending s fs @ (if coldFields s fs = [] then [] else [length (promises s)])"
    using assms c by (auto split: if_splits)
  show "tableData s' = tableData s" using assms c by (auto split: if_splits)
  show "isDataLoaded s' = isDataLoaded s" using assms c by (auto split: if_splits)
  show "recordModelsById s' = recordModelsById s" using assms c by (auto split: if_splits)
  show "timers s' = timers s" using assms c by (auto split: if_splits)
qed

lemma loadedFlag_eqI:
  "areCellValuesLoadedByFieldId s' = areCellValuesLoadedByFieldId s \<Longrightarrow> loadedFlag s' f = loadedFlag s f"
  by (simp add: loadedFlag_def)

lemma pendingPromise_eqI:
  "pendingCellValuesLoadPromiseByFieldId s' = pendingCellValuesLoadPromiseByFieldId s \<Longrightarrow>
   pendingPromise s' f = pendingPromise s f"
  by (simp add: pendingPromise_def)

lemma coldFields_set:
  "f \<in> set (coldFields s fs) \<longleftrightarrow> f \<in> set fs \<and> \<not> loadedFlag s f \<and> pendingPromise s f = None"
  by (auto simp: coldFields_def)

lemma storeInv_batchD:
  "storeInv s \<Longrightarrow> p < length (promises s) \<Longrightarrow> f \<in> set (batchOf (promises s ! p)) \<Longrightarrow>
   pendingPromise s f = Some p"
  unfolding storeInv_def by blast

lemma storeInv_pendingD:
  "storeInv s \<Longrightarrow> pendingPromise s f = Some p \<Longrightarrow> p < length (promises s) \<and> \<not> loadedFlag s f"
  unfolding storeInv_def by blast

lemma storeInvI:
  assumes "\<And>p f. p < length (promises s) \<Longrightarrow> f \<in> set (batchOf (promises s ! p)) \<Longrightarrow>
             pendingPromise s f = Some p"
    and "\<And>f p. pendingPromise s f = Some p \<Longrightarrow> p < length (promises s) \<and> \<not> loadedFlag s f"
  shows "storeInv s"
  unfolding storeInv_def using assms by blast

lemma storeInv_load:
  assumes inv: "storeInv s" and l: "loadCellValuesInFieldIdsAsync s fs = (s', joined)"
  shows "storeInv s'"
proof -
  note F = load_facts[OF l]
  have lf: "\<And>f. loadedFlag s' f = loadedFlag s f" using F(3) by (rule loadedFlag_eqI)
  show ?thesis
  proof (rule storeInvI)
    fix p f assume p: "p < length (promises s')" and f: "f \<in> set (batchOf (promises s' ! p))"
    show "pendingPromise s' f = Some p"
    proof (cases "p < length (promises s)")
      case True
      then have "promises s' ! p = promises s ! p" using F(2) by (simp add: nth_append)
      with f have "f \<in> set (batchOf (promises s ! p))" by simp
      with inv True have pp: "pendingPromise s f = Some p" by (rule storeInv_batchD)
      then have "f \<notin> set (coldFields s fs)" by (simp add: coldFields_set)
      with pp show ?thesis using F(4)[of f] by simp
    next
      case False
      with p F(2) have ne: "coldFields s fs \<noteq> []" and pl: "p = length (promises s)"
        by (auto split: if_splits)
      then have "promises s' ! p = Pending (coldFields s fs)" using F(2) by (simp add: nth_append)
      with f have "f \<in> set (coldFields s fs)" by (simp add: batchOf_def)
      then show ?thesis using F(4)[of f] pl by simp
    qed
  next
    fix f p assume pp: "pendingPromise s' f = Some p"
    show "p < length (promises s') \<and> \<not> loadedFlag s' f"
    proof (cases "f \<in> set (coldFields s fs)")
      case True
      then have "coldFields s fs \<noteq> []" by auto
      moreover from True pp F(4)[of f] have "p = length (promises s)" by simp
      ultimately show ?thesis using True F(2) by (simp add: lf coldFields_set)
    next
      case False
      with pp F(4)[of f] have "pendingPromise s f = Some p" by simp
      with inv have "p < length (promises s) \<and> \<not> loadedFlag s f" by (rule storeInv_pendingD)
      then show ?thesis using F(2) by (simp add: lf)
    qed
  qed
qed

lemma storeInv_frame:
  assumes "storeInv s" and "promises s' = promises s"
    and "pendingCellValuesLoadPromiseByFieldId s' = pendingCellValuesLoadPromiseByFieldId s"
    and "\<And>f. loadedFlag s' f \<Longrightarrow> loadedFlag s f"
  shows "storeInv s'"
proof (rule storeInvI)
  have pp: "\<And>f. pendingPromise s' f = pendingPromise s f"
    using assms(3) by (rule pendingPromise_eqI)
  fix p f assume "p < length (promises s')" "f \<in> set (batchOf (promises s' ! p))"
  then have "p < length (promises s)" "f \<in> set (batchOf (promises s ! p))"
    by (simp_all add: assms(2))
  with assms(1) show "pendingPromise s' f = Some p" unfolding pp by (rule storeInv_batchD)
next
  have pp: "\<And>f. pendingPromise s' f = pendingPromise s f"
    using assms(3) by (rule pendingPromise_eqI)
  fix f p assume "pendingPromise s' f = Some p"
  then have "pendingPromise s f = Some p" by (simp add: pp)
  with assms(1) have "p < length (promises s) \<and> \<not> loadedFlag s f" by (rule storeInv_pendingD)
  then show "p < length (promises s') \<and> \<not> loadedFlag s' f"
    using assms(4)[of f] by (auto simp: assms(2))
qed

lemma resume_frame:
  assumes "priv_loadCellValuesInFieldIdsAsync_resume s fs new = (s', r)"
  shows "promises s' = promises s" and "trace s' = trace s"
    and "areCellValuesLoadedByFieldId s' = areCellValuesLoadedByFieldId s"
    and "pendingCellValuesLoadPromiseByFieldId s' = pendingCellValuesLoadPromiseByFieldId s"
    and "cellValuesRetainCountByFieldId s' = cellValuesRetainCountByFieldId s"
    and "timers s' = timers s" and "isDataLoaded s' = isDataLoaded s"
    and "recordModelsById s' = recordModelsById s"
  using assms
  by (auto simp: priv_loadCellValuesInFieldIdsAsync_resume_def split: option.splits prod.splits)

lemma fetchResolved_facts:
  assumes "fetchResolved s p new = Some s'"
  shows "p < length (promises s)"
    and "\<exists>fs. promises s ! p = Pending fs \<and>
           (\<exists>r s1. priv_loadCellValuesInFieldIdsAsync_resume s fs new = (s1, r) \<and>
              s' = s1\<lparr>promises := (promises s)[p := (case r of Inl e \<Rightarrow> Rejected e
                                                    | Inr ks \<Rightarrow> Fulfilled fs ks)]\<rparr>)"
proof -
  show p: "p < length (promises s)"
    using assms by (simp add: fetchResolved_def split: if_splits)
  from assms p obtain fs where fs: "promises s ! p = Pending fs"
    by (auto simp: fetchResolved_def split: promise_state.splits)
  obtain s1 r where r: "priv_loadCellValuesInFieldIdsAsync_resume s fs new = (s1, r)"
    by (cases "priv_loadCellValuesInFieldIdsAsync_resume s fs new") auto
  have "promises s1 = promises s" using r by (rule resume_frame)
  with assms p fs r have "s' = s1\<lparr>promises := (promises s)[p := (case r of Inl e \<Rightarrow> Rejected e
                                                    | Inr ks \<Rightarrow> Fulfilled fs ks)]\<rparr>"
    by (simp add: fetchResolved_def)
  with fs r show "\<exists>fs. promises s ! p = Pending fs \<and>
           (\<exists>r s1. priv_loadCellValuesInFieldIdsAsync_resume s fs new = (s1, r) \<and>
              s' = s1\<lparr>promises := (promises s)[p := (case r of Inl e \<Rightarrow> Rejected e
                                                    | Inr ks \<Rightarrow> Fulfilled fs ks)]\<rparr>)"
    by blast
qed

lemma storeInv_update_promise:
  assumes inv: "storeInv s" and p: "p < length (promises s)"
    and sub: "set (batchOf st) \<subseteq> set (batchOf (promises s ! p))"
    and pr: "promises s' = (promises s)[p := st]"
    and pe: "pendingCellValuesLoadPromiseByFieldId s' = pendingCellValuesLoadPromiseByFieldId s"
    and lo: "areCellValuesLoadedByFieldId s' = areCellValuesLoadedByFieldId s"
  shows "storeInv s'"
proof (rule storeInvI)
  have pp: "\<And>f. pendingPromise s' f = pendingPromise s f" using pe by (rule pendingPromise_eqI)
  fix q f assume q: "q < length (promises s')" and f: "f \<in> set (batchOf (promises s' ! q))"
  have ql: "q < length (promises s)" using q pr by simp
  have "f \<in> set (batchOf (promises s ! q))"
  proof (cases "q = p")
    case True
    with f pr p have "f \<in> set (batchOf st)" by simp
    with sub True show ?thesis by blast
  next
    case False
    with f pr show ?thesis by simp
  qed
  with inv ql show "pendingPromise s' f = Some q" unfolding pp by (rule storeInv_batchD)
next
  have pp: "\<And>f. pendingPromise s' f = pendingPromise s f" using pe by (rule pendingPromise_eqI)
  have lf: "\<And>f. loadedFlag s' f = loadedFlag s f" using lo by (rule loadedFlag_eqI)
  fix f q assume "pendingPromise s' f = Some q"
  then have "pendingPromise s f = Some q" by (simp add: pp)
  with inv have "q < length (promises s) \<and> \<not> loadedFlag s f" by (rule storeInv_pendingD)
  then show "q < length (promises s') \<and> \<not> loadedFlag s' f" by (simp add: pr lf)
qed

lemma storeInv_fetchResolved:
  assumes inv: "storeInv s" and st: "fetchResolved s p new = Some s'"
  shows "storeInv s'"
proof -
  from fetchResolved_facts[OF st] obtain fs r s1 where
    p: "p < length (promises s)" and fs: "promises s ! p = Pending fs"
    and r: "priv_loadCellValuesInFieldIdsAsync_resume s fs new = (s1, r)"
    and s': "s' = s1\<lparr>promises := (promises s)[p := (case r of Inl e \<Rightarrow> Rejected e
                                                    | Inr ks \<Rightarrow> Fulfilled fs ks)]\<rparr>"
    by blast
  note R = resume_frame[OF r]
  show ?thesis
  proof (rule storeInv_update_promise[OF inv p])
    show "set (batchOf (case r of Inl e \<Rightarrow> Rejected e | Inr ks \<Rightarrow> Fulfilled fs ks))
            \<subseteq> set (batchOf (promises s ! p))"
      by (simp add: fs batchOf_def split: sum.splits)
    show "promises s' = (promises s)[p := (case r of Inl e \<Rightarrow> Rejected e | Inr ks \<Rightarrow> Fulfilled fs ks)]"
      by (simp add: s')
    show "pendingCellValuesLoadPromiseByFieldId s' = pendingCellValuesLoadPromiseByFieldId s"
      by (simp add: s' R)
    show "areCellValuesLoadedByFieldId s' = areCellValuesLoadedByFieldId s"
      by (simp add: s' R)
  qed
qed

lemma fetchRejected_facts:
  assumes "fetchRejected s p msg = Some s'"
  shows "p < length (promises s)"
    and "\<exists>fs. promises s ! p = Pending fs"
    and "s' = s\<lparr>promises := (promises s)[p := Rejected (BackendError msg)]\<rparr>"
  using assms by (auto simp: fetchRejected_def split: if_splits promise_state.splits)

lemma storeInv_fetchRejected:
  assumes inv: "storeInv s" and st: "fetchRejected s p msg = Some s'"
  shows "storeInv s'"
proof -
  note F = fetchRejected_facts[OF st]
  show ?thesis
  proof (rule storeInv_update_promise[OF inv F(1)])
    show "set (batchOf (Rejected (BackendError msg))) \<subseteq> set (batchOf (promises s ! p))"
      by (simp add: batchOf_def)
    show "promises s' = (promises s)[p := Rejected (BackendError msg)]" by (simp add: F(3))
    show "pendingCellValuesLoadPromiseByFieldId s' = pendingCellValuesLoadPromiseByFieldId s"
      by (simp add: F(3))
    show "areCellValuesLoadedByFieldId s' = areCellValuesLoadedByFieldId s" by (simp add: F(3))
  qed
qed

lemma markLoaded_facts:
  "areCellValuesLoadedByFieldId (markLoaded s fs) =
     fold (\<lambda>f m. AList.update f True m) fs (areCellValuesLoadedByFieldId s)"
  "pendingCellValuesLoadPromiseByFieldId (markLoaded s fs) =
     fold (\<lambda>f m. AList.update f None m) fs (pendingCellValuesLoadPromiseByFieldId s)"
  "promises (markLoaded s fs) = promises s" "trace (markLoaded s fs) = trace s"
  "tableData (markLoaded s fs) = tableData s" "isDataLoaded (markLoaded s fs) = isDataLoaded s"
  "recordModelsById (markLoaded s fs) = recordModelsById s" "timers (markLoaded s fs) = timers s"
  "cellValuesRetainCountByFieldId (markLoaded s fs) = cellValuesRetainCountByFieldId s"
  unfolding markLoaded_def by (induction fs arbitrary: s; simp)+

lemma fold_onChange_facts:
  "trace (fold (\<lambda>k s'. onChange s' (g k) (h k)) ks s) = trace s @ map (\<lambda>k. OnChange (g k) (h k)) ks"
  "areCellValuesLoadedByFieldId (fold (\<lambda>k s'. onChange s' (g k) (h k)) ks s) = areCellValuesLoadedByFieldId s"
  "pendingCellValuesLoadPromiseByFieldId (fold (\<lambda>k s'. onChange s' (g k) (h k)) ks s) =
     pendingCellValuesLoadPromiseByFieldId s"
  "promises (fold (\<lambda>k s'. onChange s' (g k) (h k)) ks s) = promises s"
  "tableData (fold (\<lambda>k s'. onChange s' (g k) (h k)) ks s) = tableData s"
  "isDataLoaded (fold (\<lambda>k s'. onChange s' (g k) (h k)) ks s) = isDataLoaded s"
  "recordModelsById (fold (\<lambda>k s'. onChange s' (g k) (h k)) ks s) = recordModelsById s"
  "timers (fold (\<lambda>k s'. onChange s' (g k) (h k)) ks s) = timers s"
  "cellValuesRetainCountByFieldId (fold (\<lambda>k s'. onChange s' (g k) (h k)) ks s) =
     cellValuesRetainCountByFieldId s"
  by (induction ks arbitrary: s; simp add: onChange_def)+

lemma thenCallback_facts:
  assumes "thenCallback s p = Some s'"
  shows "p < length (promises s)"
    and "\<exists>fs ks. promises s ! p = Fulfilled fs ks \<and>
           promises s' = (promises s)[p := Done ks] \<and>
           trace s' = trace s @ map (\<lambda>key. OnChange key NoPayload) ks \<and>
           areCellValuesLoadedByFieldId s' =
             fold (\<lambda>f m. AList.update f True m) fs (areCellValuesLoadedByFieldId s) \<and>
           pendingCellValuesLoadPromiseByFieldId s' =
             fold (\<lambda>f m. AList.update f None m) fs (pendingCellValuesLoadPromiseByFieldId s)"
    and "tableData s' = tableData s"
proof -
  show p: "p < length (promises s)"
    using assms by (simp add: thenCallback_def split: if_splits)
  from assms p obtain fs ks where fs: "promises s ! p = Fulfilled fs ks"
    by (auto simp: thenCallback_def split: promise_state.splits)
  from assms p fs have s': "s' = fold (\<lambda>key s'. onChange s' key NoPayload) ks
                     (markLoaded (s\<lparr>promises := (promises s)[p := Done ks]\<rparr>) fs)"
    by (simp add: thenCallback_def)
  show "tableData s' = tableData s"
    by (simp add: s' fold_onChange_facts markLoaded_facts)
  have "promises s' = (promises s)[p := Done ks]"
    "trace s' = trace s @ map (\<lambda>key. OnChange key NoPayload) ks"
    "areCellValuesLoadedByFieldId s' =
             fold (\<lambda>f m. AList.update f True m) fs (areCellValuesLoadedByFieldId s)"
    "pendingCellValuesLoadPromiseByFieldId s' =
             fold (\<lambda>f m. AList.update f None m) fs (pendingCellValuesLoadPromiseByFieldId s)"
    by (simp_all add: s' fold_onChange_facts markLoaded_facts)
  with fs show "\<exists>fs ks. promises s ! p = Fulfilled fs ks \<and>
           promises s' = (promises s)[p := Done ks] \<and>
           trace s' = trace s @ map (\<lambda>key. OnChange key NoPayload) ks \<and>
           areCellValuesLoadedByFieldId s' =
             fold (\<lambda>f m. AList.update f True m) fs (areCellValuesLoadedByFieldId s) \<and>
           pendingCellValuesLoadPromiseByFieldId s' =
             fold (\<lambda>f m. AList.update f None m) fs (pendingCellValuesLoadPromiseByFieldId s)"
    by blast
qed

lemma storeInv_thenCallback:
  assumes inv: "storeInv s" and st: "thenCallback s p = Some s'"
  shows "storeInv s'"
proof -
  from thenCallback_facts[OF st] obtain fs ks where
    p: "p < length (promises s)" and fs: "promises s ! p = Fulfilled fs ks"
    and pr: "promises s' = (promises s)[p := Done ks]"
    and lo: "areCellValuesLoadedByFieldId s' =
             fold (\<lambda>f m. AList.update f True m) fs (areCellValuesLoadedByFieldId s)"
    and pe: "pendingCellValuesLoadPromiseByFieldId s' =
             fold (\<lambda>f m. AList.update f None m) fs (pendingCellValuesLoadPromiseByFieldId s)"
    by blast
  have pp: "\<And>f. pendingPromise s' f = (if f \<in> set fs then None else pendingPromise s f)"
    by (simp add: pendingPromise_def pe map_of_fold_update)
  have lf: "\<And>f. f \<notin> set fs \<Longrightarrow> loadedFlag s' f = loadedFlag s f"
    by (simp add: loadedFlag_def lo map_of_fold_update)
  have own: "\<And>f. f \<in> set fs \<Longrightarrow> pendingPromise s f = Some p"
    using storeInv_batchD[OF inv p] by (simp add: fs batchOf_def)
  show ?thesis
  proof (rule storeInvI)
    fix q f assume q: "q < length (promises s')" and f: "f \<in> set (batchOf (promises s' ! q))"
    have ql: "q < length (promises s)" using q pr by simp
    have qp: "q \<noteq> p" using f pr p by (auto simp: batchOf_def)
    with f pr have "f \<in> set (batchOf (promises s ! q))" by simp
    with inv ql have pq: "pendingPromise s f = Some q" by (rule storeInv_batchD)
    with own[of f] qp have "f \<notin> set fs" by auto
    with pq show "pendingPromise s' f = Some q" by (simp add: pp)
  next
    fix f q assume a: "pendingPromise s' f = Some q"
    then have nf: "f \<notin> set fs" by (auto simp: pp split: if_splits)
    with a have "pendingPromise s f = Some q" by (simp add: pp)
    with inv have "q < length (promises s) \<and> \<not> loadedFlag s f" by (rule storeInv_pendingD)
    then show "q < length (promises s') \<and> \<not> loadedFlag s' f" using nf by (simp add: pr lf)
  qed
qed

lemma afterUnload_frame:
  "promises (priv_afterUnloadDataOrUnloadCellValuesInFieldIds s u) = promises s"
  "trace (priv_afterUnloadDataOrUnloadCellValuesInFieldIds s u) = trace s"
  "areCellValuesLoadedByFieldId (priv_afterUnloadDataOrUnloadCellValuesInFieldIds s u) =
     areCellValuesLoadedByFieldId s"
  "pendingCellValuesLoadPromiseByFieldId (priv_afterUnloadDataOrUnloadCellValuesInFieldIds s u) =
     pendingCellValuesLoadPromiseByFieldId s"
  "cellValuesRetainCountByFieldId (priv_afterUnloadDataOrUnloadCellValuesInFieldIds s u) =
     cellValuesRetainCountByFieldId s"
  "timers (priv_afterUnloadDataOrUnloadCellValuesInFieldIds s u) = timers s"
  "isDataLoaded (priv_afterUnloadDataOrUnloadCellValuesInFieldIds s u) = isDataLoaded s"
  by (simp_all add: priv_afterUnloadDataOrUnloadCellValuesInFieldIds_def Let_def split: option.splits)

lemma unloadLoop_frame:
  "unloadLoop s fs zero = (s', zero') \<Longrightarrow>
     promises s' = promises s \<and>
     areCellValuesLoadedByFieldId s' = areCellValuesLoadedByFieldId s \<and>
     pendingCellValuesLoadPromiseByFieldId s' = pendingCellValuesLoadPromiseByFieldId s \<and>
     tableData s' = tableData s \<and> isDataLoaded s' = isDataLoaded s \<and>
     recordModelsById s' = recordModelsById s \<and> timers s' = timers s"
proof (induction fs arbitrary: s zero)
  case Nil
  then show ?case by simp
next
  case (Cons f fs)
  from Cons.prems obtain s2 z2 where
    "unloadLoop s2 fs z2 = (s', zero')"
    and "promises s2 = promises s \<and>
     areCellValuesLoadedByFieldId s2 = areCellValuesLoadedByFieldId s \<and>
     pendingCellValuesLoadPromiseByFieldId s2 = pendingCellValuesLoadPromiseByFieldId s \<and>
     tableData s2 = tableData s \<and> isDataLoaded s2 = isDataLoaded s \<and>
     recordModelsById s2 = recordModelsById s \<and> timers s2 = timers s"
    by (simp add: Let_def)
  with Cons.IH[of s2 z2] show ?case by simp
qed

lemma unload_frame:
  "promises (unloadCellValuesInFieldIds s fs) = promises s"
  "areCellValuesLoadedByFieldId (unloadCellValuesInFieldIds s fs) = areCellValuesLoadedByFieldId s"
  "pendingCellValuesLoadPromiseByFieldId (unloadCellValuesInFieldIds s fs) =
     pendingCellValuesLoadPromiseByFieldId s"
  "tableData (unloadCellValuesInFieldIds s fs) = tableData s"
  "isDataLoaded (unloadCellValuesInFieldIds s fs) = isDataLoaded s"
  "recordModelsById (unloadCellValuesInFieldIds s fs) = recordModelsById s"
proof -
  obtain s1 z where l: "unloadLoop s fs [] = (s1, z)"
    by (cases "unloadLoop s fs []") auto
  note F = unloadLoop_frame[OF l]
  show "promises (unloadCellValuesInFieldIds s fs) = promises s"
    "areCellValuesLoadedByFieldId (unloadCellValuesInFieldIds s fs) = areCellValuesLoadedByFieldId s"
    "pendingCellValuesLoadPromiseByFieldId (unloadCellValuesInFieldIds s fs) =
       pendingCellValuesLoadPromiseByFieldId s"
    "tableData (unloadCellValuesInFieldIds s fs) = tableData s"
    "isDataLoaded (unloadCellValuesInFieldIds s fs) = isDataLoaded s"
    "recordModelsById (unloadCellValuesInFieldIds s fs) = recordModelsById s"
    using F by (simp_all add: unloadCellValuesInFieldIds_def l)
qed

lemma unloadTimeout_frame:
  "promises (unloadTimeout s z) = promises s"
  "pendingCellValuesLoadPromiseByFieldId (unloadTimeout s z) = pendingCellValuesLoadPromiseByFieldId s"
  "timers (unloadTimeout s z) = timers s"
  "isDataLoaded (unloadTimeout s z) = isDataLoaded s"
  "cellValuesRetainCountByFieldId (unloadTimeout s z) = cellValuesRetainCountByFieldId s"
  by (simp_all add: unloadTimeout_def Let_def priv_unloadCellValuesInFieldIds_def afterUnload_frame)

lemma unloadTimeout_loaded:
  "areCellValuesLoadedByFieldId (unloadTimeout s z) =
     fold (\<lambda>f m. AList.update f False m)
       (filter (\<lambda>f. map_of (cellValuesRetainCountByFieldId s) f = Some 0) z)
       (areCellValuesLoadedByFieldId s)"
  by (simp add: unloadTimeout_def Let_def priv_unloadCellValuesInFieldIds_def afterUnload_frame)

lemma unloadTimeout_loadedFlag:
  "loadedFlag (unloadTimeout s z) f =
     (loadedFlag s f \<and> \<not> (f \<in> set z \<and> map_of (cellValuesRetainCountByFieldId s) f = Some 0))"
  by (auto simp: loadedFlag_def unloadTimeout_loaded map_of_fold_update)

lemma storeInv_timerFires:
  assumes inv: "storeInv s" and st: "timerFires s i = Some s'"
  shows "storeInv s'"
proof -
  define s0 where "s0 = s\<lparr>timers := take i (timers s) @ drop (Suc i) (timers s)\<rparr>"
  from st have s': "s' = unloadTimeout s0 (timers s ! i)"
    by (simp add: timerFires_def s0_def split: if_splits)
  show ?thesis
  proof (rule storeInv_frame[OF inv])
    show "promises s' = promises s" by (simp add: s' unloadTimeout_frame s0_def)
    show "pendingCellValuesLoadPromiseByFieldId s' = pendingCellValuesLoadPromiseByFieldId s"
      by (simp add: s' unloadTimeout_frame s0_def)
    fix f assume "loadedFlag s' f"
    then have "loadedFlag s0 f" by (simp add: s' unloadTimeout_loadedFlag)
    then show "loadedFlag s f" by (simp add: s0_def loadedFlag_def)
  qed
qed

lemma dirtyLoop_frame:
  "dirtyLoop s ds fset a r = Inr (s', fset', a', r') \<Longrightarrow>
     promises s' = promises s \<and>
     areCellValuesLoadedByFieldId s' = areCellValuesLoadedByFieldId s \<and>
     pendingCellValuesLoadPromiseByFieldId s' = pendingCellValuesLoadPromiseByFieldId s \<and>
     tableData s' = tableData s \<and> isDataLoaded s' = isDataLoaded s \<and> timers s' = timers s \<and>
     cellValuesRetainCountByFieldId s' = cellValuesRetainCountByFieldId s"
proof (induction ds arbitrary: s fset a r)
  case Nil
  then show ?case by simp
next
  case (Cons d ds)
  obtain rid dp where d: "d = (rid, dp)" by (cases d)
  from Cons.prems obtain s2 f2 a2 r2 where
    "dirtyLoop s2 ds f2 a2 r2 = Inr (s', fset', a', r')"
    and "promises s2 = promises s \<and>
     areCellValuesLoadedByFieldId s2 = areCellValuesLoadedByFieldId s \<and>
     pendingCellValuesLoadPromiseByFieldId s2 = pendingCellValuesLoadPromiseByFieldId s \<and>
     tableData s2 = tableData s \<and> isDataLoaded s2 = isDataLoaded s \<and> timers s2 = timers s \<and>
     cellValuesRetainCountByFieldId s2 = cellValuesRetainCountByFieldId s"
    unfolding d by (simp add: Let_def split: if_splits option.splits; fastforce)
  with Cons.IH[of s2 f2 a2 r2] show ?case by simp
qed

lemma onChange_frame:
  "areCellValuesLoadedByFieldId (onChange s k pl) = areCellValuesLoadedByFieldId s"
  "pendingCellValuesLoadPromiseByFieldId (onChange s k pl) = pendingCellValuesLoadPromiseByFieldId s"
  "promises (onChange s k pl) = promises s"
  "tableData (onChange s k pl) = tableData s"
  "isDataLoaded (onChange s k pl) = isDataLoaded s"
  "recordModelsById (onChange s k pl) = recordModelsById s"
  "timers (onChange s k pl) = timers s"
  "cellValuesRetainCountByFieldId (onChange s k pl) = cellValuesRetainCountByFieldId s"
  "trace (onChange s k pl) = trace s @ [OnChange k pl]"
  by (simp_all add: onChange_def)

lemma trigger_frame:
  assumes "triggerOnChangeForDirtyPaths s dp = Inr s'"
  shows "promises s' = promises s"
    and "areCellValuesLoadedByFieldId s' = areCellValuesLoadedByFieldId s"
    and "pendingCellValuesLoadPromiseByFieldId s' = pendingCellValuesLoadPromiseByFieldId s"
    and "tableData s' = tableData s"
proof -
  have "promises s' = promises s \<and>
     areCellValuesLoadedByFieldId s' = areCellValuesLoadedByFieldId s \<and>
     pendingCellValuesLoadPromiseByFieldId s' = pendingCellValuesLoadPromiseByFieldId s \<and>
     tableData s' = tableData s"
  proof (cases "\<exists>ds. dirtyRecordsById dp = Some ds \<and> isRecordMetadataLoaded s = Inr True")
    case False
    with assms have "s' = s"
      by (auto simp: triggerOnChangeForDirtyPaths_def split: sum.splits option.splits if_splits)
    then show ?thesis by simp
  next
    case True
    then obtain ds where ds: "dirtyRecordsById dp = Some ds" and ml: "isRecordMetadataLoaded s = Inr True"
      by blast
    from assms ds ml obtain s1 fset a r where
      l: "dirtyLoop s ds [] [] [] = Inr (s1, fset, a, r)"
      by (auto simp: triggerOnChangeForDirtyPaths_def split: sum.splits)
    note F = dirtyLoop_frame[OF l]
    from assms show ?thesis
      by (simp add: triggerOnChangeForDirtyPaths_def ds ml l Let_def)
         (auto simp: fold_onChange_facts onChange_frame F)
  qed
  then show "promises s' = promises s"
    and "areCellValuesLoadedByFieldId s' = areCellValuesLoadedByFieldId s"
    and "pendingCellValuesLoadPromiseByFieldId s' = pendingCellValuesLoadPromiseByFieldId s"
    and "tableData s' = tableData s"
    by simp_all
qed

lemma getRecord_frame:
  assumes "getRecordByIdIfExists s rid = Inr (s', r)"
  shows "promises s' = promises s"
    and "areCellValuesLoadedByFieldId s' = areCellValuesLoadedByFieldId s"
    and "pendingCellValuesLoadPromiseByFieldId s' = pendingCellValuesLoadPromiseByFieldId s"
  using assms
  by (auto simp: getRecordByIdIfExists_def split: option.splits if_splits)

lemma storeInv_initial: "storeInv (initialStore td)"
  by (rule storeInvI) (simp_all add: initialStore_def pendingPromise_def)

lemma reachable_storeInv: "reachable s \<Longrightarrow> storeInv s"
proof (induction rule: reachable.induct)
  case (reach_init td)
  show ?case by (rule storeInv_initial)
next
  case (reach_load s fieldIds)
  then show ?case
    using storeInv_load[of s fieldIds "fst (loadCellValuesInFieldIdsAsync s fieldIds)"
        "snd (loadCellValuesInFieldIdsAsync s fieldIds)"] by simp
next
  case (reach_resolved s p newRecordsById s')
  then show ?case using storeInv_fetchResolved by blast
next
  case (reach_rejected s p msg s')
  then show ?case using storeInv_fetchRejected by blast
next
  case (reach_then s p s')
  then show ?case using storeInv_thenCallback by blast
next
  case (reach_unload s fieldIds)
  from reach_unload.IH show ?case
    by (rule storeInv_frame) (simp_all add: unload_frame loadedFlag_def)
next
  case (reach_timer s i s')
  then show ?case using storeInv_timerFires by blast
next
  case (reach_unloadData s)
  from reach_unloadData.IH show ?case
    by (rule storeInv_frame) (simp_all add: priv_unloadData_def afterUnload_frame loadedFlag_def)
next
  case (reach_dirty s dirtyPaths s')
  from reach_dirty.IH show ?case
    by (rule storeInv_frame) (simp_all add: trigger_frame[OF reach_dirty.hyps(2)] loadedFlag_def)
next
  case (reach_getRecord s recordId s' r)
  from reach_getRecord.IH show ?case
    by (rule storeInv_frame) (simp_all add: getRecord_frame[OF reach_getRecord.hyps(2)] loadedFlag_def)
next
  case (reach_env s td' b)
  from reach_env.IH show ?case
    by (rule storeInv_frame) (simp_all add: loadedFlag_def)
qed

lemma outstanding_pending:
  assumes inv: "storeInv s" and p: "p \<in> set (outstandingFetches s f)"
  shows "pendingPromise s f = Some p"
proof -
  from p have pl: "p < length (promises s)" by (simp add: outstandingFetches_def)
  from p have "f \<in> set (batchOf (promises s ! p))"
    by (auto simp: outstandingFetches_def batchOf_def split: promise_state.splits)
  with inv pl show ?thesis by (rule storeInv_batchD)
qed

lemma outstanding_le_1:
  assumes inv: "storeInv s"
  shows "length (outstandingFetches s f) \<le> 1"
proof -
  have d: "distinct (outstandingFetches s f)" by (simp add: outstandingFetches_def)
  have "set (outstandingFetches s f) \<subseteq> {the (pendingPromise s f)}"
    using outstanding_pending[OF inv] by fastforce
  then have "card (set (outstandingFetches s f)) \<le> card {the (pendingPromise s f)}"
    by (intro card_mono) simp_all
  with d show ?thesis by (simp add: distinct_card)
qed

lemma joinedPending_mem:
  "f \<in> set fs \<Longrightarrow> \<not> loadedFlag s f \<Longrightarrow> pendingPromise s f = Some p \<Longrightarrow> p \<in> set (joinedPending s fs)"
  by (auto simp: joinedPending_def intro!: bexI[of _ f])

lemmas eval_simps =
  loadCellValuesInFieldIdsAsync_def priv_loadCellValuesInFieldIdsAsync_call_def retainField_def
  loadedFlag_def pendingPromise_def initialStore_def coldFields_def joinedPending_def
  outstandingFetches_def Let_def

lemma unloadTimeout_unfold:
  "unloadTimeout s z =
     (if fieldIdsToUnload s z = [] then s
      else priv_afterUnloadDataOrUnloadCellValuesInFieldIds
             (s\<lparr>areCellValuesLoadedByFieldId :=
                  fold (\<lambda>fieldId m. AList.update fieldId False m) (fieldIdsToUnload s z)
                    (areCellValuesLoadedByFieldId s),
                trace := trace s @ [UnsubscribeFromCellValuesInFields (fieldIdsToUnload s z)]\<rparr>)
             (Some (fieldIdsToUnload s z)))"
  by (simp add: unloadTimeout_def fieldIdsToUnload_def Let_def priv_unloadCellValuesInFieldIds_def)

lemma unloadTimeout_trace:
  "trace (unloadTimeout s z) =
     trace s @ (if fieldIdsToUnload s z = [] then []
                else [UnsubscribeFromCellValuesInFields (fieldIdsToUnload s z)])"
  by (simp add: unloadTimeout_unfold afterUnload_frame)

lemma promiseAll_rejected:
  "p \<in> set ps \<Longrightarrow> isRejected (promises s ! p) \<Longrightarrow> promiseAll s ps = JoinRejected"
  by (auto simp: promiseAll_def list_ex_iff)

subsection \<open>Deduplicated loads\<close>

lemma c1_store_eq:
  "c1_store =
     \<lparr>tableData = Some c1_table, isDataLoaded = False, recordModelsById = [],
      areCellValuesLoadedByFieldId = [],
      pendingCellValuesLoadPromiseByFieldId = [(''fldA'', Some 0)],
      cellValuesRetainCountByFieldId = [(''fldA'', 1)],
      promises = [Pending [''fldA'']], timers = [],
      trace = [FetchAndSubscribeToCellValuesInFields [''fldA'']]\<rparr>"
  by (simp add: c1_store_def eval_simps)

text \<open>
  Claim C1. In every state the store can reach, a call of \<open>loadCellValuesInFieldIdsAsync\<close>
  issues at most one backend fetch, and that fetch asks for exactly the requested fields
  that are neither loaded nor loading; a requested field with a pending load promise is
  left out of the fetch, its promise is among those the call awaits, and it stays the
  field's pending promise. After the call, no field has more than one outstanding fetch.
\<close>

theorem loadCellValuesInFieldIdsAsync_deduplicates:
  assumes "reachable s" and "loadCellValuesInFieldIdsAsync s fieldIds = (s', joined)"
  shows "trace s' = trace s @
           (if coldFields s fieldIds = [] then []
            else [FetchAndSubscribeToCellValuesInFields (coldFields s fieldIds)]) \<and>
         (\<forall>f \<in> set fieldIds. \<forall>p. pendingPromise s f = Some p \<longrightarrow>
            p \<in> set joined \<and> f \<notin> set (coldFields s fieldIds) \<and> pendingPromise s' f = Some p) \<and>
         (\<forall>f. length (outstandingFetches s' f) \<le> 1)"
proof (intro conjI ballI allI impI)
  note F = load_facts[OF assms(2)]
  have inv: "storeInv s" using assms(1) by (rule reachable_storeInv)
  show "trace s' = trace s @
           (if coldFields s fieldIds = [] then []
            else [FetchAndSubscribeToCellValuesInFields (coldFields s fieldIds)])"
    by (rule F(1))
  show "length (outstandingFetches s' f) \<le> 1" for f
    by (rule outstanding_le_1) (rule storeInv_load[OF inv assms(2)])
  fix f p assume f: "f \<in> set fieldIds" and pp: "pendingPromise s f = Some p"
  from storeInv_pendingD[OF inv pp] have nl: "\<not> loadedFlag s f" by simp
  show "p \<in> set joined"
    using joinedPending_mem[OF f nl pp] by (simp add: F(5))
  show nc: "f \<notin> set (coldFields s fieldIds)" using pp by (simp add: coldFields_set)
  show "pendingPromise s' f = Some p" using F(4)[of f] nc pp by simp
qed

theorem loadCellValuesInFieldIdsAsync_deduplicates_witness:
  "reachable c1_store \<and>
   pendingPromise c1_store ''fldA'' = Some 0 \<and>
   trace (fst (loadCellValuesInFieldIdsAsync c1_store [''fldA'', ''fldB''])) =
     trace c1_store @ [FetchAndSubscribeToCellValuesInFields [''fldB'']] \<and>
   snd (loadCellValuesInFieldIdsAsync c1_store [''fldA'', ''fldB'']) = [0, 1] \<and>
   pendingPromise (fst (loadCellValuesInFieldIdsAsync c1_store [''fldA'', ''fldB''])) ''fldA'' = Some 0 \<and>
   length (outstandingFetches (fst (loadCellValuesInFieldIdsAsync c1_store [''fldA'', ''fldB''])) ''fldA'') \<le> 1"
proof -
  have r: "reachable c1_store"
    unfolding c1_store_def by (rule reach_load) (rule reach_init)
  have e: "loadCellValuesInFieldIdsAsync c1_store [''fldA'', ''fldB''] =
             (fst (loadCellValuesInFieldIdsAsync c1_store [''fldA'', ''fldB'']),
              snd (loadCellValuesInFieldIdsAsync c1_store [''fldA'', ''fldB'']))"
    by simp
  have c: "coldFields c1_store [''fldA'', ''fldB''] = [''fldB'']"
    by (simp add: c1_store_eq eval_simps)
  have p: "pendingPromise c1_store ''fldA'' = Some 0"
    by (simp add: c1_store_eq eval_simps)
  have j: "snd (loadCellValuesInFieldIdsAsync c1_store [''fldA'', ''fldB'']) = [0, 1]"
    by (simp add: c1_store_eq eval_simps)
  show ?thesis
    using loadCellValuesInFieldIdsAsync_deduplicates[OF r e] r c p j by simp
qed

subsection \<open>A failed fetch\<close>

lemma c2_store_eq:
  "c2_store =
     \<lparr>tableData = Some c2_table, isDataLoaded = False, recordModelsById = [],
      areCellValuesLoadedByFieldId = [],
      pendingCellValuesLoadPromiseByFieldId = [(''fldA'', Some 0)],
      cellValuesRetainCountByFieldId = [(''fldA'', 1)],
      promises = [Pending [''fldA'']], timers = [],
      trace = [FetchAndSubscribeToCellValuesInFields [''fldA'']]\<rparr>"
  by (simp add: c2_store_def eval_simps)

lemma c2_rejected: "fetchRejected c2_store 0 ''offline'' = Some c2_failed"
  by (simp add: c2_store_eq c2_failed_def fetchRejected_def)

lemma c2_retry:
  "loadCellValuesInFieldIdsAsync c2_failed [''fldA''] =
     (c2_failed\<lparr>cellValuesRetainCountByFieldId := [(''fldA'', 2)]\<rparr>, [0])"
  by (simp add: c2_failed_def eval_simps)

text \<open>
  Claim C2 as stated fails: after the first load of \<open>fldA\<close> is rejected, the field's pending
  marker still holds promise 0, and a second call for \<open>fldA\<close> adds nothing to the trace
  (no fresh fetch) and awaits the rejected promise.
\<close>

theorem fetch_failure_clears_marker_counterexample:
  "fetchRejected c2_store 0 ''offline'' = Some c2_failed \<and>
   pendingPromise c2_failed ''fldA'' = Some 0 \<and>
   trace (fst (loadCellValuesInFieldIdsAsync c2_failed [''fldA''])) = trace c2_failed \<and>
   promiseAll (fst (loadCellValuesInFieldIdsAsync c2_failed [''fldA'']))
     (snd (loadCellValuesInFieldIdsAsync c2_failed [''fldA''])) = JoinRejected"
  by (simp add: c2_rejected c2_retry)
     (simp add: c2_failed_def pendingPromise_def promiseAll_def isRejected_def)

text \<open>
  Claim C2, as the code has it. When the backend fetch behind a batch fails, the loaded
  flags are unchanged and no field of the batch is loaded, and every \<open>Promise.all\<close> that
  holds the batch's promise is rejected. The pending-load marker of every field of the
  batch is not cleared: it still holds the rejected promise (the \<open>then\<close> callback that
  clears it runs on success only). A later call for fields of the batch therefore issues
  no fetch, joins the rejected promise and is rejected as well.
\<close>

theorem fetch_failure_keeps_pending_marker:
  assumes "reachable s" and "promises s ! p = Pending fieldIds"
    and "fetchRejected s p msg = Some s'"
  shows "areCellValuesLoadedByFieldId s' = areCellValuesLoadedByFieldId s \<and>
         (\<forall>f \<in> set fieldIds. \<not> loadedFlag s' f \<and> pendingPromise s' f = Some p) \<and>
         (\<forall>ps. p \<in> set ps \<longrightarrow> promiseAll s' ps = JoinRejected) \<and>
         (\<forall>fs s'' joined.
            fs \<noteq> [] \<and> set fs \<subseteq> set fieldIds \<and>
            loadCellValuesInFieldIdsAsync s' fs = (s'', joined) \<longrightarrow>
            trace s'' = trace s' \<and> promiseAll s'' joined = JoinRejected)"
proof -
  note F = fetchRejected_facts[OF assms(3)]
  have inv: "storeInv s" using assms(1) by (rule reachable_storeInv)
  have lo: "areCellValuesLoadedByFieldId s' = areCellValuesLoadedByFieldId s" by (simp add: F(3))
  have lf: "\<And>f. loadedFlag s' f = loadedFlag s f" using lo by (rule loadedFlag_eqI)
  have pp: "\<And>f. pendingPromise s' f = pendingPromise s f"
    by (rule pendingPromise_eqI) (simp add: F(3))
  have rj: "isRejected (promises s' ! p)" using F(1) by (simp add: F(3) isRejected_def)
  have pl: "promises s' = (promises s)[p := Rejected (BackendError msg)]" by (simp add: F(3))
  have own: "pendingPromise s f = Some p \<and> \<not> loadedFlag s f" if "f \<in> set fieldIds" for f
  proof -
    from that have "f \<in> set (batchOf (promises s ! p))" by (simp add: assms(2) batchOf_def)
    with inv F(1) have "pendingPromise s f = Some p" by (rule storeInv_batchD)
    with storeInv_pendingD[OF inv this] show ?thesis by simp
  qed
  have retry: "trace s'' = trace s' \<and> promiseAll s'' joined = JoinRejected"
    if ne: "fs \<noteq> []" and sub: "set fs \<subseteq> set fieldIds"
      and l: "loadCellValuesInFieldIdsAsync s' fs = (s'', joined)" for fs s'' joined
  proof -
    note L = load_facts[OF l]
    have cold: "coldFields s' fs = []"
      using sub own by (auto simp: coldFields_def filter_empty_conv pp)
    from ne obtain f where f: "f \<in> set fs" by (cases fs) auto
    with sub own[of f] have "pendingPromise s' f = Some p" "\<not> loadedFlag s' f"
      by (auto simp: pp lf)
    with f have "p \<in> set (joinedPending s' fs)" by (simp add: joinedPending_mem)
    then have pj: "p \<in> set joined" by (simp add: L(5) cold)
    have "promises s'' = promises s'" by (simp add: L(2) cold)
    with rj have "isRejected (promises s'' ! p)" by simp
    with pj have "promiseAll s'' joined = JoinRejected" by (rule promiseAll_rejected)
    moreover have "trace s'' = trace s'" by (simp add: L(1) cold)
    ultimately show ?thesis by simp
  qed
  show ?thesis
  proof (intro conjI ballI allI impI)
    show "areCellValuesLoadedByFieldId s' = areCellValuesLoadedByFieldId s" by (rule lo)
    show "\<not> loadedFlag s' f" if "f \<in> set fieldIds" for f using own[OF that] by (simp add: lf)
    show "pendingPromise s' f = Some p" if "f \<in> set fieldIds" for f using own[OF that] by (simp add: pp)
    show "promiseAll s' ps = JoinRejected" if "p \<in> set ps" for ps
      using that rj by (rule promiseAll_rejected)
    show "trace s'' = trace s'"
      if "fs \<noteq> [] \<and> set fs \<subseteq> set fieldIds \<and> loadCellValuesInFieldIdsAsync s' fs = (s'', joined)"
      for fs s'' joined using retry[of fs s'' joined] that by simp
    show "promiseAll s'' joined = JoinRejected"
      if "fs \<noteq> [] \<and> set fs \<subseteq> set fieldIds \<and> loadCellValuesInFieldIdsAsync s' fs = (s'', joined)"
      for fs s'' joined using retry[of fs s'' joined] that by simp
  qed
qed

theorem fetch_failure_keeps_pending_marker_witness:
  "reachable c2_store \<and> promises c2_store ! 0 = Pending [''fldA''] \<and>
   fetchRejected c2_store 0 ''offline'' = Some c2_failed \<and>
   \<not> loadedFlag c2_failed ''fldA'' \<and> pendingPromise c2_failed ''fldA'' = Some 0 \<and>
   promiseAll c2_failed [0] = JoinRejected \<and>
   trace (c2_failed\<lparr>cellValuesRetainCountByFieldId := [(''fldA'', 2)]\<rparr>) = trace c2_failed \<and>
   promiseAll (c2_failed\<lparr>cellValuesRetainCountByFieldId := [(''fldA'', 2)]\<rparr>) [0] = JoinRejected"
proof -
  have r: "reachable c2_store"
    unfolding c2_store_def by (rule reach_load) (rule reach_init)
  have p: "promises c2_store ! 0 = Pending [''fldA'']" by (simp add: c2_store_eq)
  note T = fetch_failure_keeps_pending_marker[OF r p c2_rejected]
  from T have a: "\<not> loadedFlag c2_failed ''fldA''" "pendingPromise c2_failed ''fldA'' = Some 0"
    by simp_all
  from T have b: "promiseAll c2_failed [0] = JoinRejected" by simp
  from T have "[''fldA''] \<noteq> [] \<and> set [''fldA''] \<subseteq> set [''fldA''] \<and>
            loadCellValuesInFieldIdsAsync c2_failed [''fldA''] =
              (c2_failed\<lparr>cellValuesRetainCountByFieldId := [(''fldA'', 2)]\<rparr>, [0]) \<longrightarrow>
            trace (c2_failed\<lparr>cellValuesRetainCountByFieldId := [(''fldA'', 2)]\<rparr>) = trace c2_failed \<and>
            promiseAll (c2_failed\<lparr>cellValuesRetainCountByFieldId := [(''fldA'', 2)]\<rparr>) [0] = JoinRejected"
    by blast
  with c2_retry have c: "trace (c2_failed\<lparr>cellValuesRetainCountByFieldId := [(''fldA'', 2)]\<rparr>) = trace c2_failed \<and>
            promiseAll (c2_failed\<lparr>cellValuesRetainCountByFieldId := [(''fldA'', 2)]\<rparr>) [0] = JoinRejected"
    by simp
  show ?thesis using r p c2_rejected a b c by simp
qed

subsection \<open>Releasing fields that are not retained\<close>

lemma c3_store_reachable: "reachable c3_store"
proof -
  let ?s0 = "initialStore c3_table"
  let ?s1 = "fst (loadCellValuesInFieldIdsAsync ?s0 [''fldA''])"
  have r1: "reachable ?s1" by (rule reach_load) (rule reach_init)
  have e1: "?s1 =
     \<lparr>tableData = Some c3_table, isDataLoaded = False, recordModelsById = [],
      areCellValuesLoadedByFieldId = [],
      pendingCellValuesLoadPromiseByFieldId = [(''fldA'', Some 0)],
      cellValuesRetainCountByFieldId = [(''fldA'', 1)],
      promises = [Pending [''fldA'']], timers = [],
      trace = [FetchAndSubscribeToCellValuesInFields [''fldA'']]\<rparr>"
    by (simp add: eval_simps)
  let ?s2 = "\<lparr>tableData = Some (c3_table\<lparr>recordsById := Some []\<rparr>), isDataLoaded = False,
      recordModelsById = [], areCellValuesLoadedByFieldId = [],
      pendingCellValuesLoadPromiseByFieldId = [(''fldA'', Some 0)],
      cellValuesRetainCountByFieldId = [(''fldA'', 1)],
      promises = [Fulfilled [''fldA'']
                    [''cellValuesInField:fldA'', ''records'', ''recordIds'', ''cellValues'']],
      timers = [],
      trace = [FetchAndSubscribeToCellValuesInFields [''fldA'']]\<rparr>"
  have "fetchResolved ?s1 0 [] = Some ?s2"
    by (simp only: e1)
       (simp add: fetchResolved_def priv_loadCellValuesInFieldIdsAsync_resume_def
          changedKeysFor_def WatchableCellValuesInFieldKeyPrefix_def c3_table_def)
  with r1 have r2: "reachable ?s2" by (rule reach_resolved)
  let ?s3 = "\<lparr>tableData = Some (c3_table\<lparr>recordsById := Some []\<rparr>), isDataLoaded = False,
      recordModelsById = [], areCellValuesLoadedByFieldId = [(''fldA'', True)],
      pendingCellValuesLoadPromiseByFieldId = [(''fldA'', None)],
      cellValuesRetainCountByFieldId = [(''fldA'', 1)],
      promises = [Done [''cellValuesInField:fldA'', ''records'', ''recordIds'', ''cellValues'']],
      timers = [],
      trace = [FetchAndSubscribeToCellValuesInFields [''fldA''],
               OnChange ''cellValuesInField:fldA'' NoPayload, OnChange ''records'' NoPayload,
               OnChange ''recordIds'' NoPayload, OnChange ''cellValues'' NoPayload]\<rparr>"
  have "thenCallback ?s2 0 = Some ?s3"
    by (simp add: thenCallback_def markLoaded_def onChange_def)
  with r2 have r3: "reachable ?s3" by (rule reach_then)
  have r4: "reachable (unloadCellValuesInFieldIds ?s3 [''fldA''])" using r3 by (rule reach_unload)
  have e4: "unloadCellValuesInFieldIds ?s3 [''fldA''] =
              ?s3\<lparr>cellValuesRetainCountByFieldId := [(''fldA'', 0)], timers := [[''fldA'']]\<rparr>"
    by (simp add: unloadCellValuesInFieldIds_def Let_def)
  have "timerFires (?s3\<lparr>cellValuesRetainCountByFieldId := [(''fldA'', 0)], timers := [[''fldA'']]\<rparr>) 0
          = Some c3_store"
    by (simp add: timerFires_def unloadTimeout_def Let_def priv_unloadCellValuesInFieldIds_def
        priv_afterUnloadDataOrUnloadCellValuesInFieldIds_def areAnyFieldsLoaded_def c3_store_def
        c3_table_def)
  with r4 show ?thesis unfolding e4 by (rule reach_timer)
qed

lemma c3_release: "unloadCellValuesInFieldIds c3_store [''fldA''] = c3_released"
  by (simp add: unloadCellValuesInFieldIds_def Let_def c3_store_def c3_released_def)

lemma c3_fire: "timerFires c3_released 0 = Some c3_fired"
  by (simp add: timerFires_def unloadTimeout_def Let_def priv_unloadCellValuesInFieldIds_def
        priv_afterUnloadDataOrUnloadCellValuesInFieldIds_def areAnyFieldsLoaded_def c3_store_def
        c3_released_def c3_fired_def c3_table_def)

text \<open>
  Claim C3 as stated fails: on a store where \<open>fldA\<close> was loaded and unloaded before (retain
  count 0, flag false), another \<open>unloadCellValuesInFieldIds\<close> schedules a timer, and when
  it fires the backend unsubscribe for \<open>fldA\<close> is issued again.
\<close>

theorem unload_of_unloaded_fields_counterexample:
  "map_of (cellValuesRetainCountByFieldId c3_store) ''fldA'' = Some 0 \<and>
   map_of (areCellValuesLoadedByFieldId c3_store) ''fldA'' = Some False \<and>
   timerFires (unloadCellValuesInFieldIds c3_store [''fldA'']) 0 = Some c3_fired \<and>
   trace c3_fired =
     trace c3_store @
       [ConsoleLog ''Field data over-released'', UnsubscribeFromCellValuesInFields [''fldA'']]"
  by (simp add: c3_release c3_fire) (simp add: c3_store_def c3_fired_def)

lemma unloadLoop_over_release:
  "\<forall>f \<in> set fs. map_of (cellValuesRetainCountByFieldId s) f = None \<or>
                  map_of (cellValuesRetainCountByFieldId s) f = Some 0 \<Longrightarrow>
   unloadLoop s fs zero =
     (s\<lparr>cellValuesRetainCountByFieldId :=
          fold (\<lambda>f m. AList.update f 0 m) fs (cellValuesRetainCountByFieldId s),
        trace := trace s @ replicate (length fs) (ConsoleLog ''Field data over-released'')\<rparr>,
      zero @ fs)"
proof (induction fs arbitrary: s zero)
  case Nil
  then show ?case by simp
next
  case (Cons f fs)
  let ?s2 = "s\<lparr>trace := trace s @ [ConsoleLog ''Field data over-released''],
               cellValuesRetainCountByFieldId := AList.update f 0 (cellValuesRetainCountByFieldId s)\<rparr>"
  from Cons.prems have "map_of (cellValuesRetainCountByFieldId s) f = None \<or>
                  map_of (cellValuesRetainCountByFieldId s) f = Some 0"
    by simp
  then have step: "unloadLoop s (f # fs) zero = unloadLoop ?s2 fs (zero @ [f])"
    by (auto simp: Let_def)
  have "\<forall>g \<in> set fs. map_of (cellValuesRetainCountByFieldId ?s2) g = None \<or>
                  map_of (cellValuesRetainCountByFieldId ?s2) g = Some 0"
    using Cons.prems by (simp add: update_conv')
  from Cons.IH[OF this, of "zero @ [f]"] show ?case
    by (simp only: step) simp
qed

lemma c3_loading_reachable: "reachable c3_loading"
proof -
  let ?s0 = "initialStore c3_table"
  let ?s1 = "fst (loadCellValuesInFieldIdsAsync ?s0 [''fldA''])"
  have r1: "reachable ?s1" by (rule reach_load) (rule reach_init)
  have e1: "?s1 =
     \<lparr>tableData = Some c3_table, isDataLoaded = False, recordModelsById = [],
      areCellValuesLoadedByFieldId = [],
      pendingCellValuesLoadPromiseByFieldId = [(''fldA'', Some 0)],
      cellValuesRetainCountByFieldId = [(''fldA'', 1)],
      promises = [Pending [''fldA'']], timers = [],
      trace = [FetchAndSubscribeToCellValuesInFields [''fldA'']]\<rparr>"
    by (simp add: eval_simps)
  let ?s2 = "\<lparr>tableData = Some c3_table, isDataLoaded = False, recordModelsById = [],
      areCellValuesLoadedByFieldId = [],
      pendingCellValuesLoadPromiseByFieldId = [(''fldA'', Some 0)],
      cellValuesRetainCountByFieldId = [(''fldA'', 0)],
      promises = [Pending [''fldA'']], timers = [[''fldA'']],
      trace = [FetchAndSubscribeToCellValuesInFields [''fldA'']]\<rparr>"
  have r2: "reachable (unloadCellValuesInFieldIds ?s1 [''fldA''])" using r1 by (rule reach_unload)
  have e2: "unloadCellValuesInFieldIds ?s1 [''fldA''] = ?s2"
    by (simp only: e1) (simp add: unloadCellValuesInFieldIds_def Let_def)
  have "timerFires ?s2 0 = Some c3_loading"
    by (simp add: timerFires_def unloadTimeout_def Let_def priv_unloadCellValuesInFieldIds_def
        priv_afterUnloadDataOrUnloadCellValuesInFieldIds_def areAnyFieldsLoaded_def c3_loading_def
        c3_table_def)
  with r2 show ?thesis unfolding e2 by (rule reach_timer)
qed

lemma c3_loading_release: "unloadCellValuesInFieldIds c3_loading [''fldA''] = c3_loading_released"
  by (simp add: unloadCellValuesInFieldIds_def Let_def c3_loading_def c3_loading_released_def)

lemma c3_resolve: "fetchResolved c3_loading_released 0 [(''recA'', c3_recA)] = Some c3_resolved"
  by (simp add: fetchResolved_def priv_loadCellValuesInFieldIdsAsync_resume_def c3_resolved_def
      c3_loading_released_def c3_loading_def c3_table_def changedKeysFor_def
      WatchableCellValuesInFieldKeyPrefix_def)

lemma c3_then: "thenCallback c3_resolved 0 = Some c3_late"
  by (simp add: thenCallback_def markLoaded_def onChange_def c3_late_def c3_resolved_def
      c3_loading_released_def c3_loading_def)

lemma c3_late_fire: "timerFires c3_late 0 = Some c3_late_fired"
  by (simp add: timerFires_def unloadTimeout_def Let_def priv_unloadCellValuesInFieldIds_def
      priv_afterUnloadDataOrUnloadCellValuesInFieldIds_def areAnyFieldsLoaded_def c3_late_def
      c3_late_fired_def c3_resolved_def c3_loading_released_def c3_loading_def c3_table_def)

text \<open>
  Claim C3, as the code has it. For a non-empty list of fields whose retain count is 0 or
  missing and whose loaded flag is not true, the call of \<open>unloadCellValuesInFieldIds\<close>
  itself only logs one over-release per listed field, stores the clamped count 0 for each,
  and schedules one debounce timer for the list; it changes no loaded flag, no table data
  and no Record model, and calls no backend. Whenever that timer fires while the counts of
  the listed fields are 0, straight after the call or in any later state, the flags of the
  listed fields are written false and \<open>_unloadCellValuesInFieldIds\<close> runs for the list:
  the backend unsubscribe is issued for it, every listed field is then not loaded (also one
  that a fetch completed in between had made loaded), and every other field stays loaded
  or not as it was. When the timer fires straight after the call, no field changes between
  loaded and not loaded.
\<close>

theorem unload_of_unloaded_fields:
  assumes "fieldIds \<noteq> []"
    and "\<forall>f \<in> set fieldIds.
           (map_of (cellValuesRetainCountByFieldId s) f = None \<or>
            map_of (cellValuesRetainCountByFieldId s) f = Some 0) \<and> \<not> loadedFlag s f"
    and "s' = unloadCellValuesInFieldIds s fieldIds"
  shows "trace s' = trace s @ replicate (length fieldIds) (ConsoleLog ''Field data over-released'') \<and>
         (\<forall>f. map_of (cellValuesRetainCountByFieldId s') f =
                (if f \<in> set fieldIds then Some 0 else map_of (cellValuesRetainCountByFieldId s) f)) \<and>
         timers s' = timers s @ [fieldIds] \<and>
         areCellValuesLoadedByFieldId s' = areCellValuesLoadedByFieldId s \<and>
         tableData s' = tableData s \<and> recordModelsById s' = recordModelsById s \<and>
         (\<exists>s''. timerFires s' (length (timers s)) = Some s'' \<and>
            trace s'' = trace s' @ [UnsubscribeFromCellValuesInFields fieldIds] \<and>
            (\<forall>f. loadedFlag s'' f = loadedFlag s f)) \<and>
         (\<forall>t i. i < length (timers t) \<and> timers t ! i = fieldIds \<and>
                (\<forall>f \<in> set fieldIds. map_of (cellValuesRetainCountByFieldId t) f = Some 0) \<longrightarrow>
            (\<exists>t'. timerFires t i = Some t' \<and>
               t' = priv_unloadCellValuesInFieldIds
                      (t\<lparr>timers := take i (timers t) @ drop (Suc i) (timers t),
                         areCellValuesLoadedByFieldId :=
                           fold (\<lambda>fieldId m. AList.update fieldId False m) fieldIds
                             (areCellValuesLoadedByFieldId t)\<rparr>)
                      fieldIds \<and>
               trace t' = trace t @ [UnsubscribeFromCellValuesInFields fieldIds] \<and>
               (\<forall>f. loadedFlag t' f = (loadedFlag t f \<and> f \<notin> set fieldIds))))"
proof -
  have z: "\<forall>f \<in> set fieldIds. map_of (cellValuesRetainCountByFieldId s) f = None \<or>
                  map_of (cellValuesRetainCountByFieldId s) f = Some 0"
    using assms(2) by blast
  have s': "s' = s\<lparr>cellValuesRetainCountByFieldId :=
                    fold (\<lambda>f m. AList.update f 0 m) fieldIds (cellValuesRetainCountByFieldId s),
                  trace := trace s @ replicate (length fieldIds) (ConsoleLog ''Field data over-released''),
                  timers := timers s @ [fieldIds]\<rparr>"
    using assms(1) by (simp add: assms(3) unloadCellValuesInFieldIds_def unloadLoop_over_release[OF z])
  have cnt: "map_of (cellValuesRetainCountByFieldId s') f =
                (if f \<in> set fieldIds then Some 0 else map_of (cellValuesRetainCountByFieldId s) f)" for f
    by (simp add: s' map_of_fold_update)
  have later: "\<exists>t'. timerFires t i = Some t' \<and>
               t' = priv_unloadCellValuesInFieldIds
                      (t\<lparr>timers := take i (timers t) @ drop (Suc i) (timers t),
                         areCellValuesLoadedByFieldId :=
                           fold (\<lambda>fieldId m. AList.update fieldId False m) fieldIds
                             (areCellValuesLoadedByFieldId t)\<rparr>)
                      fieldIds \<and>
               trace t' = trace t @ [UnsubscribeFromCellValuesInFields fieldIds] \<and>
               (\<forall>f. loadedFlag t' f = (loadedFlag t f \<and> f \<notin> set fieldIds))"
    if i: "i < length (timers t)" and ti: "timers t ! i = fieldIds"
      and c0: "\<forall>f \<in> set fieldIds. map_of (cellValuesRetainCountByFieldId t) f = Some 0"
    for t i
  proof -
    define t0 where "t0 = t\<lparr>timers := take i (timers t) @ drop (Suc i) (timers t)\<rparr>"
    have tf: "timerFires t i = Some (unloadTimeout t0 fieldIds)"
      using i ti by (simp add: timerFires_def t0_def)
    have fl: "filter (\<lambda>fieldId. map_of (cellValuesRetainCountByFieldId t0) fieldId = Some 0) fieldIds
                = fieldIds"
      using c0 by (simp add: t0_def filter_id_conv)
    then have u: "fieldIdsToUnload t0 fieldIds = fieldIds" by (simp add: fieldIdsToUnload_def)
    have e: "unloadTimeout t0 fieldIds =
               priv_unloadCellValuesInFieldIds
                 (t\<lparr>timers := take i (timers t) @ drop (Suc i) (timers t),
                    areCellValuesLoadedByFieldId :=
                      fold (\<lambda>fieldId m. AList.update fieldId False m) fieldIds
                        (areCellValuesLoadedByFieldId t)\<rparr>)
                 fieldIds"
      using assms(1) by (simp add: unloadTimeout_def Let_def fl) (simp add: t0_def)
    have tr: "trace (unloadTimeout t0 fieldIds) =
                trace t @ [UnsubscribeFromCellValuesInFields fieldIds]"
      using assms(1) by (simp add: unloadTimeout_trace u) (simp add: t0_def)
    have lf: "loadedFlag (unloadTimeout t0 fieldIds) f = (loadedFlag t f \<and> f \<notin> set fieldIds)" for f
    proof -
      have "loadedFlag t0 f = loadedFlag t f" by (simp add: t0_def loadedFlag_def)
      moreover have "map_of (cellValuesRetainCountByFieldId t0) f = Some 0" if "f \<in> set fieldIds"
        using c0 that by (simp add: t0_def)
      ultimately show ?thesis by (auto simp: unloadTimeout_loadedFlag)
    qed
    show ?thesis using tf e tr lf by simp
  qed
  have now: "\<exists>s''. timerFires s' (length (timers s)) = Some s'' \<and>
            trace s'' = trace s' @ [UnsubscribeFromCellValuesInFields fieldIds] \<and>
            (\<forall>f. loadedFlag s'' f = loadedFlag s f)"
  proof -
    have "length (timers s) < length (timers s')" "timers s' ! length (timers s) = fieldIds"
      "\<forall>f \<in> set fieldIds. map_of (cellValuesRetainCountByFieldId s') f = Some 0"
      by (simp_all add: cnt) (simp_all add: s')
    from later[OF this] obtain s'' where
      a: "timerFires s' (length (timers s)) = Some s''"
      and b: "trace s'' = trace s' @ [UnsubscribeFromCellValuesInFields fieldIds]"
      and c: "\<And>f. loadedFlag s'' f = (loadedFlag s' f \<and> f \<notin> set fieldIds)"
      by blast
    have "loadedFlag s' f = loadedFlag s f" for f by (simp add: s' loadedFlag_def)
    with c assms(2) have "loadedFlag s'' f = loadedFlag s f" for f by auto
    with a b show ?thesis by blast
  qed
  have call: "trace s' = trace s @ replicate (length fieldIds) (ConsoleLog ''Field data over-released'')"
    "timers s' = timers s @ [fieldIds]"
    "areCellValuesLoadedByFieldId s' = areCellValuesLoadedByFieldId s"
    "tableData s' = tableData s" "recordModelsById s' = recordModelsById s"
    by (simp_all add: s')
  from call cnt now later show ?thesis by blast
qed

theorem unload_of_unloaded_fields_witness:
  "reachable c3_loading \<and>
   map_of (cellValuesRetainCountByFieldId c3_loading) ''fldA'' = Some 0 \<and>
   \<not> loadedFlag c3_loading ''fldA'' \<and>
   unloadCellValuesInFieldIds c3_loading [''fldA''] = c3_loading_released \<and>
   trace c3_loading_released = trace c3_loading @ [ConsoleLog ''Field data over-released''] \<and>
   timers c3_loading_released = [[''fldA'']] \<and>
   (\<exists>s''. timerFires c3_loading_released 0 = Some s'' \<and>
      trace s'' = trace c3_loading_released @ [UnsubscribeFromCellValuesInFields [''fldA'']] \<and>
      \<not> loadedFlag s'' ''fldA'') \<and>
   fetchResolved c3_loading_released 0 [(''recA'', c3_recA)] = Some c3_resolved \<and>
   thenCallback c3_resolved 0 = Some c3_late \<and>
   map_of (cellValuesRetainCountByFieldId c3_late) ''fldA'' = Some 0 \<and>
   loadedFlag c3_late ''fldA'' \<and>
   timerFires c3_late 0 = Some c3_late_fired \<and>
   trace c3_late_fired = trace c3_late @ [UnsubscribeFromCellValuesInFields [''fldA'']] \<and>
   \<not> loadedFlag c3_late_fired ''fldA'' \<and>
   tableData c3_late_fired = Some c3_table"
proof -
  have a: "[''fldA''] \<noteq> ([] :: field_id list)" by simp
  have c: "map_of (cellValuesRetainCountByFieldId c3_loading) ''fldA'' = Some 0"
    "\<not> loadedFlag c3_loading ''fldA''" "timers c3_loading = []"
    by (simp_all add: c3_loading_def loadedFlag_def)
  then have b: "\<forall>f \<in> set [''fldA''].
           (map_of (cellValuesRetainCountByFieldId c3_loading) f = None \<or>
            map_of (cellValuesRetainCountByFieldId c3_loading) f = Some 0) \<and>
           \<not> loadedFlag c3_loading f"
    by simp
  note T = unload_of_unloaded_fields[OF a b c3_loading_release[symmetric]]
  from T c(3)
  have t: "trace c3_loading_released = trace c3_loading @ [ConsoleLog ''Field data over-released'']"
    and ti: "timers c3_loading_released = [[''fldA'']]"
    by simp_all
  from T c(2,3) have n: "\<exists>s''. timerFires c3_loading_released 0 = Some s'' \<and>
      trace s'' = trace c3_loading_released @ [UnsubscribeFromCellValuesInFields [''fldA'']] \<and>
      \<not> loadedFlag s'' ''fldA''"
    by auto
  have l: "0 < length (timers c3_late) \<and> timers c3_late ! 0 = [''fldA''] \<and>
           (\<forall>f \<in> set [''fldA'']. map_of (cellValuesRetainCountByFieldId c3_late) f = Some 0)"
    "loadedFlag c3_late ''fldA''"
    "map_of (cellValuesRetainCountByFieldId c3_late) ''fldA'' = Some 0"
    by (simp_all add: c3_late_def c3_resolved_def c3_loading_released_def c3_loading_def
        loadedFlag_def)
  from T l(1) obtain t' where
    "timerFires c3_late 0 = Some t'"
    "trace t' = trace c3_late @ [UnsubscribeFromCellValuesInFields [''fldA'']]"
    "\<And>f. loadedFlag t' f = (loadedFlag c3_late f \<and> f \<notin> set [''fldA''])"
    by blast
  with c3_late_fire have f: "trace c3_late_fired =
      trace c3_late @ [UnsubscribeFromCellValuesInFields [''fldA'']]"
    "\<not> loadedFlag c3_late_fired ''fldA''"
    by simp_all
  have d: "tableData c3_late_fired = Some c3_table" by (simp add: c3_late_fired_def)
  from c3_loading_reachable c(1,2) c3_loading_release t ti n c3_resolve c3_then l(2,3)
    c3_late_fire f d
  show ?thesis by blast
qed

subsection \<open>Notifications of a diff\<close>




subsection \<open>The merge of a snapshot\<close>

lemma mergeRecord_Inr:
  assumes "mergeRecord fids e nr = Inr m"
  shows "commentCount m = commentCount e" and "createdTime m = createdTime e"
    and "cellValueOf m f = (if f \<in> set fids then cellValueOf nr f else cellValueOf e f)"
    and "\<not> mismatch e nr"
  using assms
  by (auto simp: mergeRecord_def cellValueOf_def map_of_fold_update mismatch_def
           split: if_splits option.splits)

lemma mergeRecord_cases:
  "(mismatch e nr \<and> (\<exists>msg. mergeRecord fids e nr = Inl (InvariantViolation msg) \<and>
       msg \<in> {''comment count out of sync'', ''created time out of sync''})) \<or>
   (\<not> mismatch e nr \<and> (\<exists>m. mergeRecord fids e nr = Inr m))"
  by (simp add: mergeRecord_def mismatch_def)

lemma outOfSync_Cons:
  "outOfSync ex ((k, nr) # rest) =
     ((case map_of ex k of None \<Rightarrow> False | Some e \<Rightarrow> mismatch e nr) \<or> outOfSync ex rest)"
  by (simp add: outOfSync_def)

lemma outOfSync_update:
  "k \<notin> fst ` set rest \<Longrightarrow> outOfSync (AList.update k v ex) rest = outOfSync ex rest"
  by (induction rest) (auto simp: outOfSync_def update_conv')

lemma mergeRecords_error_iff:
  "distinct (map fst new) \<Longrightarrow> mergeRecords fids new ex = (res, err) \<Longrightarrow>
   (err = None \<longleftrightarrow> \<not> outOfSync ex new)"
proof (induction new arbitrary: ex)
  case Nil
  then show ?case by (simp add: outOfSync_def)
next
  case (Cons a rest)
  obtain k nr where a: "a = (k, nr)" by (cases a)
  from Cons.prems(1) have d: "distinct (map fst rest)" and kn: "k \<notin> fst ` set rest"
    by (auto simp: a)
  show ?case
  proof (cases "map_of ex k")
    case None
    with Cons.prems(2) have "mergeRecords fids rest (AList.update k nr ex) = (res, err)"
      by (simp add: a)
    from Cons.IH[OF d this] show ?thesis
      by (simp add: a outOfSync_Cons None outOfSync_update[OF kn])
  next
    case (Some e)
    from mergeRecord_cases[of e nr fids] show ?thesis
    proof (elim disjE conjE exE)
      fix msg assume mm: "mismatch e nr" and f: "mergeRecord fids e nr = Inl (InvariantViolation msg)"
      from Cons.prems(2) have "err = Some (InvariantViolation msg)"
        by (simp add: a Some f)
      with mm show ?thesis by (simp add: a outOfSync_Cons Some)
    next
      fix m assume mm: "\<not> mismatch e nr" and f: "mergeRecord fids e nr = Inr m"
      from Cons.prems(2) have "mergeRecords fids rest (AList.update k m ex) = (res, err)"
        by (simp add: a Some f)
      from Cons.IH[OF d this] mm show ?thesis
        by (simp add: a outOfSync_Cons Some outOfSync_update[OF kn])
    qed
  qed
qed

lemma mergeRecords_error_kind:
  "mergeRecords fids new ex = (res, Some x) \<Longrightarrow>
   \<exists>msg. x = InvariantViolation msg \<and>
     msg \<in> {''comment count out of sync'', ''created time out of sync''}"
proof (induction new arbitrary: ex)
  case Nil
  then show ?case by simp
next
  case (Cons a rest)
  obtain k nr where a: "a = (k, nr)" by (cases a)
  show ?case
  proof (cases "map_of ex k")
    case None
    with Cons.prems have "mergeRecords fids rest (AList.update k nr ex) = (res, Some x)"
      by (simp add: a)
    then show ?thesis by (rule Cons.IH)
  next
    case (Some e)
    from mergeRecord_cases[of e nr fids] show ?thesis
    proof (elim disjE conjE exE)
      fix msg assume f: "mergeRecord fids e nr = Inl (InvariantViolation msg)"
        and m: "msg \<in> {''comment count out of sync'', ''created time out of sync''}"
      from Cons.prems have "x = InvariantViolation msg" by (simp add: a Some f)
      with m show ?thesis by blast
    next
      fix m assume f: "mergeRecord fids e nr = Inr m"
      from Cons.prems have "mergeRecords fids rest (AList.update k m ex) = (res, Some x)"
        by (simp add: a Some f)
      then show ?thesis by (rule Cons.IH)
    qed
  qed
qed

lemma mergeRecords_lookup:
  "distinct (map fst new) \<Longrightarrow> mergeRecords fids new ex = (res, None) \<Longrightarrow>
   map_of res rid =
     (case map_of new rid of
        None \<Rightarrow> map_of ex rid
      | Some nr \<Rightarrow>
          (case map_of ex rid of
             None \<Rightarrow> Some nr
           | Some e \<Rightarrow> (case mergeRecord fids e nr of Inr m \<Rightarrow> Some m | Inl x \<Rightarrow> None)))"
proof (induction new arbitrary: ex)
  case Nil
  then show ?case by simp
next
  case (Cons a rest)
  obtain k nr where a: "a = (k, nr)" by (cases a)
  from Cons.prems(1) have d: "distinct (map fst rest)" and kn: "k \<notin> fst ` set rest"
    by (auto simp: a)
  from kn have rk: "map_of rest k = None" by (simp add: map_of_eq_None_iff)
  show ?case
  proof (cases "map_of ex k")
    case None
    with Cons.prems(2) have "mergeRecords fids rest (AList.update k nr ex) = (res, None)"
      by (simp add: a)
    from Cons.IH[OF d this] show ?thesis
      by (cases "rid = k") (simp_all add: a rk None update_conv' cong: option.case_cong)
  next
    case (Some e)
    from mergeRecord_cases[of e nr fids] show ?thesis
    proof (elim disjE conjE exE)
      fix msg assume f: "mergeRecord fids e nr = Inl (InvariantViolation msg)"
      from Cons.prems(2) have False by (simp add: a Some f)
      then show ?thesis ..
    next
      fix m assume f: "mergeRecord fids e nr = Inr m"
      from Cons.prems(2) have "mergeRecords fids rest (AList.update k m ex) = (res, None)"
        by (simp add: a Some f)
      from Cons.IH[OF d this] show ?thesis
        by (cases "rid = k") (simp_all add: a rk Some f update_conv' cong: option.case_cong)
    qed
  qed
qed

lemma mergeRecords_keeps_mismatching:
  "distinct (map fst new) \<Longrightarrow> mergeRecords fids new ex = (res, err) \<Longrightarrow>
   map_of ex rid = Some old \<Longrightarrow> map_of new rid = Some nr \<Longrightarrow> mismatch old nr \<Longrightarrow>
   map_of res rid = Some old"
proof (induction new arbitrary: ex)
  case Nil
  then show ?case by simp
next
  case (Cons a rest)
  obtain k nr0 where a: "a = (k, nr0)" by (cases a)
  from Cons.prems(1) have d: "distinct (map fst rest)" by (simp add: a)
  show ?case
  proof (cases "k = rid")
    case True
    with Cons.prems(4) have n: "nr0 = nr" by (simp add: a)
    from mergeRecord_cases[of old nr fids] Cons.prems(5) obtain msg where
      "mergeRecord fids old nr = Inl (InvariantViolation msg)" by blast
    with Cons.prems(2,3) True n have "res = ex" by (simp add: a)
    with Cons.prems(3) show ?thesis by simp
  next
    case False
    with Cons.prems(4) have r: "map_of rest rid = Some nr" by (simp add: a)
    have u: "map_of (AList.update k v ex) rid = Some old" for v
      using False Cons.prems(3) by (simp add: update_conv')
    show ?thesis
    proof (cases "map_of ex k")
      case None
      with Cons.prems(2) have "mergeRecords fids rest (AList.update k nr0 ex) = (res, err)"
        by (simp add: a)
      from Cons.IH[OF d this u r Cons.prems(5)] show ?thesis .
    next
      case (Some e)
      from mergeRecord_cases[of e nr0 fids] show ?thesis
      proof (elim disjE conjE exE)
        fix msg assume f: "mergeRecord fids e nr0 = Inl (InvariantViolation msg)"
        from Cons.prems(2) have "res = ex" by (simp add: a Some f)
        with Cons.prems(3) show ?thesis by simp
      next
        fix m assume f: "mergeRecord fids e nr0 = Inr m"
        from Cons.prems(2) have "mergeRecords fids rest (AList.update k m ex) = (res, err)"
          by (simp add: a Some f)
        from Cons.IH[OF d this u r Cons.prems(5)] show ?thesis .
      qed
    qed
  qed
qed

lemma resume_unfold:
  assumes "tableData s = Some td"
    and "mergeRecords fids new (residentRecords td) = (res, err)"
  shows "priv_loadCellValuesInFieldIdsAsync_resume s fids new =
           (s\<lparr>tableData := Some (td\<lparr>recordsById := Some res\<rparr>)\<rparr>,
            (case err of Some e \<Rightarrow> Inl e | None \<Rightarrow> Inr (changedKeysFor fids)))"
  using assms
  by (simp add: priv_loadCellValuesInFieldIdsAsync_resume_def residentRecords_def)

text \<open>
  Claim C5. When the snapshot fetched for the fields \<open>fieldIds\<close> (an object, so its record
  ids are distinct) is merged into the store of a table that is not deleted: a record id
  of the store that the snapshot does not hold keeps its entry as it is; a record id of the
  snapshot that the store did not hold gets the snapshot's record as a whole; for a record
  id held by both, the entry stays, with the same comment count and created time, the cell
  values of exactly the fields of \<open>fieldIds\<close> are those of the snapshot, and the cell
  value of every other field is what it was; no other record id appears.
\<close>

theorem merge_keeps_residents_and_overwrites_batch_fields:
  assumes "tableData s = Some td"
    and "distinct (map fst newRecordsById)"
    and "priv_loadCellValuesInFieldIdsAsync_resume s fieldIds newRecordsById = (s', Inr changedKeys)"
  shows "\<exists>merged. tableData s' = Some (td\<lparr>recordsById := Some merged\<rparr>) \<and>
           (\<forall>recordId.
              case (map_of (residentRecords td) recordId, map_of newRecordsById recordId) of
                (None, None) \<Rightarrow> map_of merged recordId = None
              | (None, Some newRecordObj) \<Rightarrow> map_of merged recordId = Some newRecordObj
              | (Some existingRecordObj, None) \<Rightarrow> map_of merged recordId = Some existingRecordObj
              | (Some existingRecordObj, Some newRecordObj) \<Rightarrow>
                  (\<exists>recordObj. map_of merged recordId = Some recordObj \<and>
                     commentCount recordObj = commentCount existingRecordObj \<and>
                     createdTime recordObj = createdTime existingRecordObj \<and>
                     (\<forall>f. cellValueOf recordObj f =
                            (if f \<in> set fieldIds then cellValueOf newRecordObj f
                             else cellValueOf existingRecordObj f))))"
proof -
  obtain res err where m: "mergeRecords fieldIds newRecordsById (residentRecords td) = (res, err)"
    by (cases "mergeRecords fieldIds newRecordsById (residentRecords td)") auto
  note U = resume_unfold[OF assms(1) m]
  from assms(3) U have e: "err = None" by (cases err) simp_all
  from assms(3) U have s': "tableData s' = Some (td\<lparr>recordsById := Some res\<rparr>)" by auto
  note L = mergeRecords_lookup[OF assms(2) m[unfolded e]]
  have "case (map_of (residentRecords td) recordId, map_of newRecordsById recordId) of
                (None, None) \<Rightarrow> map_of res recordId = None
              | (None, Some newRecordObj) \<Rightarrow> map_of res recordId = Some newRecordObj
              | (Some existingRecordObj, None) \<Rightarrow> map_of res recordId = Some existingRecordObj
              | (Some existingRecordObj, Some newRecordObj) \<Rightarrow>
                  (\<exists>recordObj. map_of res recordId = Some recordObj \<and>
                     commentCount recordObj = commentCount existingRecordObj \<and>
                     createdTime recordObj = createdTime existingRecordObj \<and>
                     (\<forall>f. cellValueOf recordObj f =
                            (if f \<in> set fieldIds then cellValueOf newRecordObj f
                             else cellValueOf existingRecordObj f)))" for recordId
  proof (cases "map_of newRecordsById recordId")
    case None
    then show ?thesis using L[of recordId] by (simp split: option.splits)
  next
    case (Some nr)
    show ?thesis
    proof (cases "map_of (residentRecords td) recordId")
      case None
      with Some show ?thesis using L[of recordId] by simp
    next
      case old: (Some e)
      have ns: "\<not> outOfSync (residentRecords td) newRecordsById"
        using mergeRecords_error_iff[OF assms(2) m] e by simp
      have "(recordId, nr) \<in> set newRecordsById" using Some by (rule map_of_SomeD)
      with ns old have "\<not> mismatch e nr"
        by (auto simp: outOfSync_def list_ex_iff)
      with mergeRecord_cases[of e nr fieldIds] obtain mm where mm: "mergeRecord fieldIds e nr = Inr mm"
        by blast
      from L[of recordId] Some old mm have "map_of res recordId = Some mm" by simp
      with mergeRecord_Inr[OF mm] Some old show ?thesis by simp
    qed
  qed
  with s' show ?thesis by blast
qed

theorem merge_keeps_residents_and_overwrites_batch_fields_witness:
  "tableData c5_store = Some c5_table \<and>
   snd (priv_loadCellValuesInFieldIdsAsync_resume c5_store [''fldB'']
          [(''recA'', c5_newA), (''recB'', c5_newB)]) =
     Inr [''cellValuesInField:fldB'', ''records'', ''recordIds'', ''cellValues''] \<and>
   (\<exists>merged recordObj.
      tableData (fst (priv_loadCellValuesInFieldIdsAsync_resume c5_store [''fldB'']
          [(''recA'', c5_newA), (''recB'', c5_newB)])) = Some (c5_table\<lparr>recordsById := Some merged\<rparr>) \<and>
      map_of merged ''recA'' = Some recordObj \<and>
      cellValueOf recordObj ''fldA'' = CellValue ''a1'' \<and>
      cellValueOf recordObj ''fldB'' = CellValue ''b1'' \<and>
      map_of merged ''recB'' = Some c5_newB)"
proof -
  let ?new = "[(''recA'', c5_newA), (''recB'', c5_newB)]"
  let ?r = "priv_loadCellValuesInFieldIdsAsync_resume c5_store [''fldB''] ?new"
  have a: "tableData c5_store = Some c5_table" by (simp add: c5_store_def)
  have b: "distinct (map fst ?new)" by simp
  have k: "snd ?r = Inr [''cellValuesInField:fldB'', ''records'', ''recordIds'', ''cellValues'']"
    by (simp add: priv_loadCellValuesInFieldIdsAsync_resume_def c5_store_def c5_table_def
        c5_recA_def c5_newA_def c5_newB_def mergeRecord_def changedKeysFor_def
        WatchableCellValuesInFieldKeyPrefix_def)
  have c: "?r = (fst ?r, Inr [''cellValuesInField:fldB'', ''records'', ''recordIds'', ''cellValues''])"
    using k by (simp add: prod_eq_iff)
  from merge_keeps_residents_and_overwrites_batch_fields[OF a b c] obtain merged where
    t: "tableData (fst ?r) = Some (c5_table\<lparr>recordsById := Some merged\<rparr>)"
    and m: "\<And>recordId.
              case (map_of (residentRecords c5_table) recordId, map_of ?new recordId) of
                (None, None) \<Rightarrow> map_of merged recordId = None
              | (None, Some newRecordObj) \<Rightarrow> map_of merged recordId = Some newRecordObj
              | (Some existingRecordObj, None) \<Rightarrow> map_of merged recordId = Some existingRecordObj
              | (Some existingRecordObj, Some newRecordObj) \<Rightarrow>
                  (\<exists>recordObj. map_of merged recordId = Some recordObj \<and>
                     commentCount recordObj = commentCount existingRecordObj \<and>
                     createdTime recordObj = createdTime existingRecordObj \<and>
                     (\<forall>f. cellValueOf recordObj f =
                            (if f \<in> set [''fldB''] then cellValueOf newRecordObj f
                             else cellValueOf existingRecordObj f)))"
    by blast
  from m[of "''recA''"] obtain recordObj where
    ra: "map_of merged ''recA'' = Some recordObj"
    and cv: "\<And>f. cellValueOf recordObj f =
                (if f \<in> set [''fldB''] then cellValueOf c5_newA f else cellValueOf c5_recA f)"
    by (auto simp: residentRecords_def c5_table_def)
  from m[of "''recB''"] have rb: "map_of merged ''recB'' = Some c5_newB"
    by (simp add: residentRecords_def c5_table_def)
  have "cellValueOf recordObj ''fldA'' = CellValue ''a1''"
    "cellValueOf recordObj ''fldB'' = CellValue ''b1''"
    unfolding cv by (simp_all add: cellValueOf_def c5_newA_def c5_recA_def)
  with a k t ra rb show ?thesis by blast
qed

subsection \<open>Records out of sync\<close>

text \<open>
  Claim C6. For a snapshot with distinct record ids and a table that is not deleted: if
  the snapshot holds a record id of the store whose comment count or created
  time differs from the resident record's, the merge stops with a failed invariant, and
  every such record is left as it was; if there is none, the merge runs to its end and
  returns the changed keys.
\<close>

theorem merge_halts_when_out_of_sync:
  assumes "tableData s = Some td" and "distinct (map fst newRecordsById)"
  shows "if outOfSync (residentRecords td) newRecordsById
         then \<exists>kept msg.
                priv_loadCellValuesInFieldIdsAsync_resume s fieldIds newRecordsById =
                  (s\<lparr>tableData := Some (td\<lparr>recordsById := Some kept\<rparr>)\<rparr>,
                   Inl (InvariantViolation msg)) \<and>
                msg \<in> {''comment count out of sync'', ''created time out of sync''} \<and>
                (\<forall>recordId existingRecordObj newRecordObj.
                   map_of (residentRecords td) recordId = Some existingRecordObj \<and>
                   map_of newRecordsById recordId = Some newRecordObj \<and>
                   mismatch existingRecordObj newRecordObj \<longrightarrow>
                   map_of kept recordId = Some existingRecordObj)
         else \<exists>merged.
                priv_loadCellValuesInFieldIdsAsync_resume s fieldIds newRecordsById =
                  (s\<lparr>tableData := Some (td\<lparr>recordsById := Some merged\<rparr>)\<rparr>,
                   Inr (changedKeysFor fieldIds))"
proof -
  obtain res err where m: "mergeRecords fieldIds newRecordsById (residentRecords td) = (res, err)"
    by (cases "mergeRecords fieldIds newRecordsById (residentRecords td)") auto
  note U = resume_unfold[OF assms(1) m]
  note E = mergeRecords_error_iff[OF assms(2) m]
  show ?thesis
  proof (cases "outOfSync (residentRecords td) newRecordsById")
    case True
    with E obtain x where x: "err = Some x" by (cases err) simp_all
    from mergeRecords_error_kind[OF m[unfolded x]] obtain msg where
      msg: "x = InvariantViolation msg"
        "msg \<in> {''comment count out of sync'', ''created time out of sync''}"
      by blast
    have "priv_loadCellValuesInFieldIdsAsync_resume s fieldIds newRecordsById =
                  (s\<lparr>tableData := Some (td\<lparr>recordsById := Some res\<rparr>)\<rparr>,
                   Inl (InvariantViolation msg))"
      using U by (simp add: x msg)
    moreover have "\<forall>recordId existingRecordObj newRecordObj.
                   map_of (residentRecords td) recordId = Some existingRecordObj \<and>
                   map_of newRecordsById recordId = Some newRecordObj \<and>
                   mismatch existingRecordObj newRecordObj \<longrightarrow>
                   map_of res recordId = Some existingRecordObj"
      using mergeRecords_keeps_mismatching[OF assms(2) m] by blast
    ultimately show ?thesis using True msg(2) by (simp only: if_True) blast
  next
    case False
    with E have "err = None" by simp
    with U have "priv_loadCellValuesInFieldIdsAsync_resume s fieldIds newRecordsById =
                  (s\<lparr>tableData := Some (td\<lparr>recordsById := Some res\<rparr>)\<rparr>,
                   Inr (changedKeysFor fieldIds))"
      by simp
    with False show ?thesis by (simp only: if_False) blast
  qed
qed

theorem merge_halts_when_out_of_sync_witness:
  "tableData c5_store = Some c5_table \<and>
   outOfSync (residentRecords c5_table) [(''recB'', c5_newB), (''recA'', c6_newA)] \<and>
   (\<exists>kept msg.
      priv_loadCellValuesInFieldIdsAsync_resume c5_store [''fldB'']
          [(''recB'', c5_newB), (''recA'', c6_newA)] =
        (c5_store\<lparr>tableData := Some (c5_table\<lparr>recordsById := Some kept\<rparr>)\<rparr>,
         Inl (InvariantViolation msg)) \<and>
      map_of kept ''recA'' = Some c5_recA)"
proof -
  let ?new = "[(''recB'', c5_newB), (''recA'', c6_newA)]"
  have a: "tableData c5_store = Some c5_table" by (simp add: c5_store_def)
  have b: "distinct (map fst ?new)" by simp
  have o: "outOfSync (residentRecords c5_table) ?new"
    by (simp add: outOfSync_def residentRecords_def c5_table_def mismatch_def c5_recA_def
        c6_newA_def)
  have l: "map_of (residentRecords c5_table) ''recA'' = Some c5_recA \<and>
           map_of ?new ''recA'' = Some c6_newA \<and> mismatch c5_recA c6_newA"
    by (simp add: residentRecords_def c5_table_def mismatch_def c5_recA_def c6_newA_def)
  from merge_halts_when_out_of_sync[OF a b, of "[''fldB'']"] o l a show ?thesis
    by (simp only: if_True) blast
qed

subsection \<open>The debounce timer\<close>

lemma clearCellValues_other:
  "f \<notin> set fs \<Longrightarrow> cellValueOf (clearCellValues fs r) f = cellValueOf r f"
  by (simp add: clearCellValues_def cellValueOf_def map_of_fold_update split: option.splits)

lemma loadedFlag_areAnyFieldsLoaded: "loadedFlag s f \<Longrightarrow> areAnyFieldsLoaded s"
proof -
  assume "loadedFlag s f"
  then have "(f, True) \<in> set (areCellValuesLoadedByFieldId s)"
    by (simp add: loadedFlag_def map_of_SomeD)
  then have "True \<in> snd ` set (areCellValuesLoadedByFieldId s)" by force
  then show ?thesis by (simp add: areAnyFieldsLoaded_def list_ex_iff)
qed

lemma afterUnload_column:
  assumes "areAnyFieldsLoaded s" and "f \<notin> set fs" and "tableData s = Some td"
  shows "\<exists>td'. tableData (priv_afterUnloadDataOrUnloadCellValuesInFieldIds s (Some fs)) = Some td' \<and>
           cellValuesInField td' f = cellValuesInField td f"
proof (cases "isDataLoaded s")
  case True
  with assms show ?thesis
    by (simp add: priv_afterUnloadDataOrUnloadCellValuesInFieldIds_def)
next
  case False
  have e: "cellValuesInField
             (td\<lparr>recordsById := map_option (map (\<lambda>(recordId, recordObj).
                 (recordId, clearCellValues fs recordObj))) (recordsById td)\<rparr>) f =
           cellValuesInField td f"
    using assms(2)
    by (cases "recordsById td") (simp_all add: cellValuesInField_def clearCellValues_other case_prod_beta)
  have "tableData (priv_afterUnloadDataOrUnloadCellValuesInFieldIds s (Some fs)) =
          Some (td\<lparr>recordsById := map_option (map (\<lambda>(recordId, recordObj).
                 (recordId, clearCellValues fs recordObj))) (recordsById td)\<rparr>)"
    using False assms(1,3)
    by (simp add: priv_afterUnloadDataOrUnloadCellValuesInFieldIds_def Let_def)
  with e show ?thesis by simp
qed

text \<open>
  Claim C7. When the debounce timer of \<open>unloadCellValuesInFieldIds\<close> fires, the unload
  step runs for exactly the captured fields whose retain count is 0 at that moment: they
  are the only fields of the backend unsubscribe (none is issued when there is no such
  field). A field whose count is not 0 is not among them, its loaded flag is left as it
  is, and, when its cell values are loaded, the table keeps its record map with the same
  record ids and the same cell value of that field in every record.
\<close>

theorem unloadTimeout_skips_retained_fields:
  "trace (unloadTimeout s fieldIdsWithZeroRetainCount) =
     trace s @
       (if fieldIdsToUnload s fieldIdsWithZeroRetainCount = [] then []
        else [UnsubscribeFromCellValuesInFields (fieldIdsToUnload s fieldIdsWithZeroRetainCount)]) \<and>
   (\<forall>f. map_of (cellValuesRetainCountByFieldId s) f \<noteq> Some 0 \<longrightarrow>
      f \<notin> set (fieldIdsToUnload s fieldIdsWithZeroRetainCount) \<and>
      map_of (areCellValuesLoadedByFieldId (unloadTimeout s fieldIdsWithZeroRetainCount)) f =
        map_of (areCellValuesLoadedByFieldId s) f \<and>
      (\<forall>td. areCellValuesLoadedForFieldId s f \<and> tableData s = Some td \<longrightarrow>
         (\<exists>td'. tableData (unloadTimeout s fieldIdsWithZeroRetainCount) = Some td' \<and>
            cellValuesInField td' f = cellValuesInField td f)))"
proof (intro conjI allI impI)
  let ?U = "fieldIdsToUnload s fieldIdsWithZeroRetainCount"
  let ?s1 = "s\<lparr>areCellValuesLoadedByFieldId :=
                 fold (\<lambda>fieldId m. AList.update fieldId False m) ?U (areCellValuesLoadedByFieldId s),
               trace := trace s @ [UnsubscribeFromCellValuesInFields ?U]\<rparr>"
  note ut = unloadTimeout_unfold[of s fieldIdsWithZeroRetainCount]
  show "trace (unloadTimeout s fieldIdsWithZeroRetainCount) =
     trace s @ (if ?U = [] then [] else [UnsubscribeFromCellValuesInFields ?U])"
    by (rule unloadTimeout_trace)
  fix f assume c: "map_of (cellValuesRetainCountByFieldId s) f \<noteq> Some 0"
  then show nu: "f \<notin> set ?U" by (simp add: fieldIdsToUnload_def)
  show "map_of (areCellValuesLoadedByFieldId (unloadTimeout s fieldIdsWithZeroRetainCount)) f =
        map_of (areCellValuesLoadedByFieldId s) f"
    using nu by (simp add: ut afterUnload_frame map_of_fold_update)
  fix td assume "areCellValuesLoadedForFieldId s f \<and> tableData s = Some td"
  then have l: "isDataLoaded s \<or> loadedFlag s f" and td: "tableData s = Some td"
    by (simp_all add: areCellValuesLoadedForFieldId_def)
  show "\<exists>td'. tableData (unloadTimeout s fieldIdsWithZeroRetainCount) = Some td' \<and>
            cellValuesInField td' f = cellValuesInField td f"
  proof (cases "?U = []")
    case True
    with td show ?thesis by (simp add: ut)
  next
    case False
    have "loadedFlag s f \<Longrightarrow> loadedFlag ?s1 f"
      using nu by (simp add: loadedFlag_def map_of_fold_update)
    with l have "areAnyFieldsLoaded ?s1"
      using loadedFlag_areAnyFieldsLoaded[of ?s1 f] by (auto simp: areAnyFieldsLoaded_def)
    from afterUnload_column[OF this nu, of td] td False show ?thesis
      by (simp add: ut)
  qed
qed

theorem unloadTimeout_skips_retained_fields_witness:
  "map_of (cellValuesRetainCountByFieldId c7_store) ''fldA'' = Some 1 \<and>
   areCellValuesLoadedForFieldId c7_store ''fldA'' \<and>
   trace (unloadTimeout c7_store [''fldA'', ''fldB'']) =
     [UnsubscribeFromCellValuesInFields [''fldB'']] \<and>
   map_of (areCellValuesLoadedByFieldId (unloadTimeout c7_store [''fldA'', ''fldB''])) ''fldA'' =
     Some True \<and>
   (\<exists>td'. tableData (unloadTimeout c7_store [''fldA'', ''fldB'']) = Some td' \<and>
      cellValuesInField td' ''fldA'' = Some [(''recA'', CellValue ''a1'')])"
proof -
  have c: "map_of (cellValuesRetainCountByFieldId c7_store) ''fldA'' = Some 1"
    by (simp add: c7_store_def)
  then have n: "map_of (cellValuesRetainCountByFieldId c7_store) ''fldA'' \<noteq> Some 0" by simp
  have l: "areCellValuesLoadedForFieldId c7_store ''fldA''"
    by (simp add: c7_store_def areCellValuesLoadedForFieldId_def loadedFlag_def)
  have u: "fieldIdsToUnload c7_store [''fldA'', ''fldB''] = [''fldB'']"
    by (simp add: c7_store_def fieldIdsToUnload_def)
  have t: "tableData c7_store = Some \<lparr>fieldsById = [''fldA'', ''fldB''],
         recordsById = Some [(''recA'',
           \<lparr>commentCount = 0, createdTime = ''2020-01-01'',
            cellValuesByFieldId = Some [(''fldA'', CellValue ''a1''), (''fldB'', CellValue ''b1'')]\<rparr>)]\<rparr>"
    by (simp add: c7_store_def)
  have f: "map_of (areCellValuesLoadedByFieldId c7_store) ''fldA'' = Some True"
    "trace c7_store = []"
    by (simp_all add: c7_store_def)
  from unloadTimeout_skips_retained_fields[of c7_store "[''fldA'', ''fldB'']"] n l t
  have "trace (unloadTimeout c7_store [''fldA'', ''fldB'']) =
     [UnsubscribeFromCellValuesInFields [''fldB'']]"
    and "map_of (areCellValuesLoadedByFieldId (unloadTimeout c7_store [''fldA'', ''fldB''])) ''fldA'' =
     Some True"
    and "\<exists>td'. tableData (unloadTimeout c7_store [''fldA'', ''fldB'']) = Some td' \<and>
      cellValuesInField td' ''fldA'' = cellValuesInField \<lparr>fieldsById = [''fldA'', ''fldB''],
         recordsById = Some [(''recA'',
           \<lparr>commentCount = 0, createdTime = ''2020-01-01'',
            cellValuesByFieldId = Some [(''fldA'', CellValue ''a1''), (''fldB'', CellValue ''b1'')]\<rparr>)]\<rparr> ''fldA''"
    by (simp_all add: u f)
  then show ?thesis using c l by (simp add: cellValuesInField_def cellValueOf_def)
qed

subsection \<open>Dropping the record map\<close>

lemma afterUnload_nothing_loaded:
  assumes "\<not> areAnyFieldsLoaded s"
  shows "recordModelsById (priv_afterUnloadDataOrUnloadCellValuesInFieldIds s u) = []"
    and "tableData (priv_afterUnloadDataOrUnloadCellValuesInFieldIds s u) =
           map_option (\<lambda>td. td\<lparr>recordsById := None\<rparr>) (tableData s)"
  using assms
  by (simp_all add: priv_afterUnloadDataOrUnloadCellValuesInFieldIds_def Let_def split: option.splits)

text \<open>
  Claim C8. After an unload, per-field (\<open>_unloadCellValuesInFieldIds\<close>) or of the full
  table (\<open>_unloadData\<close>), both through \<open>_afterUnloadDataOrUnloadCellValuesInFieldIds\<close>:
  when the full table data is not loaded and no per-field flag is true, the Record model
  cache is emptied and the record map of the table is set to absent (a deleted table has
  no data to change).
\<close>

theorem unload_drops_record_map_and_models:
  assumes "\<not> isDataLoaded s"
    and "\<forall>isLoaded \<in> set (map snd (areCellValuesLoadedByFieldId s)). \<not> isLoaded"
    and "s' = priv_afterUnloadDataOrUnloadCellValuesInFieldIds s unloadedFieldIds \<or>
         s' = priv_unloadCellValuesInFieldIds s fieldIds \<or> s' = priv_unloadData s"
  shows "recordModelsById s' = [] \<and>
         tableData s' = map_option (\<lambda>td. td\<lparr>recordsById := None\<rparr>) (tableData s)"
proof -
  have n: "\<not> areAnyFieldsLoaded s"
    using assms(1,2) by (simp add: areAnyFieldsLoaded_def list_ex_iff)
  have n1: "\<not> areAnyFieldsLoaded (s\<lparr>trace := t\<rparr>)" for t
    using n by (simp add: areAnyFieldsLoaded_def)
  from assms(3) show ?thesis
    using afterUnload_nothing_loaded[OF n] afterUnload_nothing_loaded[OF n1]
    by (auto simp: priv_unloadCellValuesInFieldIds_def priv_unloadData_def)
qed

theorem unload_drops_record_map_and_models_witness:
  "\<not> isDataLoaded c8_store \<and> recordModelsById c8_store = [''recA''] \<and>
   recordModelsById (priv_unloadCellValuesInFieldIds c8_store [''fldA'']) = [] \<and>
   tableData (priv_unloadCellValuesInFieldIds c8_store [''fldA'']) =
     Some \<lparr>fieldsById = [''fldA'', ''fldB''], recordsById = None\<rparr>"
proof -
  have a: "\<not> isDataLoaded c8_store" by (simp add: c8_store_def)
  have b: "\<forall>isLoaded \<in> set (map snd (areCellValuesLoadedByFieldId c8_store)). \<not> isLoaded"
    by (simp add: c8_store_def)
  have c: "priv_unloadCellValuesInFieldIds c8_store [''fldA''] =
             priv_afterUnloadDataOrUnloadCellValuesInFieldIds c8_store None \<or>
           priv_unloadCellValuesInFieldIds c8_store [''fldA''] =
             priv_unloadCellValuesInFieldIds c8_store [''fldA''] \<or>
           priv_unloadCellValuesInFieldIds c8_store [''fldA''] = priv_unloadData c8_store"
    by simp
  have d: "tableData c8_store \<noteq> None" "recordModelsById c8_store = [''recA'']"
    "map_option (\<lambda>td. td\<lparr>recordsById := None\<rparr>) (tableData c8_store) =
       Some \<lparr>fieldsById = [''fldA'', ''fldB''], recordsById = None\<rparr>"
    by (simp_all add: c8_store_def)
  show ?thesis
    using unload_drops_record_map_and_models[OF a b c] a d by simp
qed

subsection \<open>Fully loaded tables\<close>

text \<open>
  Claim C9. Whenever the full table data is loaded, \<open>areCellValuesLoadedForFieldId\<close> is
  true for every field id, whatever the per-field flag says and whether or not the id is a
  field of the table.
\<close>

theorem areCellValuesLoadedForFieldId_when_data_loaded:
  "isDataLoaded s \<Longrightarrow> areCellValuesLoadedForFieldId s fieldId"
  by (simp add: areCellValuesLoadedForFieldId_def)

theorem areCellValuesLoadedForFieldId_when_data_loaded_witness:
  "isDataLoaded c9_store \<and> \<not> loadedFlag c9_store ''fldZ'' \<and>
   areCellValuesLoadedForFieldId c9_store ''fldZ''"
proof -
  have d: "isDataLoaded c9_store" by (simp add: c9_store_def)
  have "\<not> loadedFlag c9_store ''fldZ''" by (simp add: c9_store_def loadedFlag_def)
  with d areCellValuesLoadedForFieldId_when_data_loaded[OF d, of "''fldZ''"] show ?thesis by simp
qed

subsection \<open>Keys of a successful load\<close>

lemma resume_success_keys:
  "priv_loadCellValuesInFieldIdsAsync_resume s fs new = (s1, Inr ks) \<Longrightarrow> ks = changedKeysFor fs"
  by (auto simp: priv_loadCellValuesInFieldIdsAsync_resume_def split: option.splits prod.splits)

text \<open>
  Claim C10. When the fetch of a batch of fields succeeds, whatever the snapshot holds
  (an empty one too), the \<open>then\<close> callback runs and fires, in this order, one
  \<open>cellValuesInField:F\<close> key for every field \<open>F\<close> of the batch and then the keys
  \<open>records\<close>, \<open>recordIds\<close> and \<open>cellValues\<close>; nothing else is traced in between.
\<close>

theorem successful_load_broadcasts_all_keys:
  assumes "promises s ! p = Pending fieldIds"
    and "fetchResolved s p newRecordsById = Some s1"
    and "\<not> isRejected (promises s1 ! p)"
  shows "\<exists>s2. thenCallback s1 p = Some s2 \<and>
           trace s2 = trace s @
             map (\<lambda>key. OnChange key NoPayload)
               (map (\<lambda>fieldId. ''cellValuesInField:'' @ fieldId) fieldIds
                  @ [''records'', ''recordIds'', ''cellValues''])"
proof -
  from fetchResolved_facts[OF assms(2)] assms(1) obtain r s0 where
    p: "p < length (promises s)"
    and r: "priv_loadCellValuesInFieldIdsAsync_resume s fieldIds newRecordsById = (s0, r)"
    and s1: "s1 = s0\<lparr>promises := (promises s)[p := (case r of Inl e \<Rightarrow> Rejected e
                                                    | Inr ks \<Rightarrow> Fulfilled fieldIds ks)]\<rparr>"
    by auto
  from assms(3) p obtain ks where ks: "r = Inr ks"
    by (cases r) (simp_all add: s1 isRejected_def)
  have k: "ks = changedKeysFor fieldIds" using r ks by (simp add: resume_success_keys)
  have t: "trace s0 = trace s" using r by (rule resume_frame)
  have f: "promises s1 ! p = Fulfilled fieldIds ks" "p < length (promises s1)"
    using p by (simp_all add: s1 ks)
  obtain s2 where s2: "thenCallback s1 p = Some s2"
    using f by (simp add: thenCallback_def)
  from thenCallback_facts(2)[OF s2] f have "trace s2 = trace s1 @ map (\<lambda>key. OnChange key NoPayload) ks"
    by auto
  then have "trace s2 = trace s @
             map (\<lambda>key. OnChange key NoPayload)
               (map (\<lambda>fieldId. ''cellValuesInField:'' @ fieldId) fieldIds
                  @ [''records'', ''recordIds'', ''cellValues''])"
    by (simp add: k s1 t changedKeysFor_def WatchableCellValuesInFieldKeyPrefix_def)
  with s2 show ?thesis by blast
qed

theorem successful_load_broadcasts_all_keys_witness:
  "promises c10_store ! 0 = Pending [''fldA''] \<and>
   fetchResolved c10_store 0 [] = Some c10_resolved \<and>
   tableData c10_resolved = tableData c10_store \<and>
   \<not> isRejected (promises c10_resolved ! 0) \<and>
   (\<exists>s2. thenCallback c10_resolved 0 = Some s2 \<and>
      trace s2 =
        [FetchAndSubscribeToCellValuesInFields [''fldA''],
         OnChange ''cellValuesInField:fldA'' NoPayload, OnChange ''records'' NoPayload,
         OnChange ''recordIds'' NoPayload, OnChange ''cellValues'' NoPayload])"
proof -
  have a: "promises c10_store ! 0 = Pending [''fldA'']" by (simp add: c10_store_def)
  have b: "fetchResolved c10_store 0 [] = Some c10_resolved"
    by (simp add: fetchResolved_def priv_loadCellValuesInFieldIdsAsync_resume_def c10_store_def
        c10_resolved_def changedKeysFor_def WatchableCellValuesInFieldKeyPrefix_def)
  have c: "\<not> isRejected (promises c10_resolved ! 0)"
    by (simp add: c10_resolved_def isRejected_def)
  have d: "tableData c10_resolved = tableData c10_store" by (simp add: c10_resolved_def)
  have t: "trace c10_store = [FetchAndSubscribeToCellValuesInFields [''fldA'']]"
    by (simp add: c10_store_def)
  from successful_load_broadcasts_all_keys[OF a b c] a b c d show ?thesis
    by (simp add: t)
qed


end
